theory Spec2Isabelle
  imports Complex_Main "HOL-Library.AList" "HOL-Library.Char_ord" "HOL-Library.List_Lexorder"
begin

section \<open>Strings\<close>

text \<open>
  Python strings are modelled as \<open>string\<close>. The model follows Python on ASCII text:
  \<open>str.strip\<close> removes the ASCII characters for which \<open>str.isspace\<close> holds and
  \<open>str.lower\<close> maps \<open>A\<close>..\<open>Z\<close> to \<open>a\<close>..\<open>z\<close>; every other character is
  left alone. The non-ASCII literals of the source are carried as their UTF-8 bytes.
\<close>

definition is_space :: "char \<Rightarrow> bool" where
  "is_space c = (of_char c \<in> {9, 10, 11, 12, 13, 28, 29, 30, 31, 32 :: nat})"

definition lower_char :: "char \<Rightarrow> char" where
  "lower_char c =
     (let n = (of_char c :: nat) in if 65 \<le> n \<and> n \<le> 90 then char_of (n + 32) else c)"

definition strip :: "string \<Rightarrow> string" where
  "strip s = rev (dropWhile is_space (rev (dropWhile is_space s)))"

definition lower :: "string \<Rightarrow> string" where
  "lower s = map lower_char s"

text \<open>\<^verbatim>\<open>def normalize_theme(t): return t.strip().lower()\<close>\<close>

definition normalize_theme :: "string \<Rightarrow> string" where
  "normalize_theme t = lower (strip t)"

section \<open>Errors\<close>

text \<open>
  An exception raised by the code is a value: \<open>Inl\<close> of the exception's class.
  \<open>py_bind\<close> sequences two steps, stopping at the first exception.
\<close>

datatype py_error = KeyError | ValueError | AttributeError | TypeError | IndexError

definition py_bind :: "py_error + 'a \<Rightarrow> ('a \<Rightarrow> py_error + 'b) \<Rightarrow> py_error + 'b" where
  "py_bind m f = (case m of Inl e \<Rightarrow> Inl e | Inr a \<Rightarrow> f a)"

fun py_mapM :: "('a \<Rightarrow> py_error + 'b) \<Rightarrow> 'a list \<Rightarrow> py_error + 'b list" where
  "py_mapM f [] = Inr []"
| "py_mapM f (a # as) = py_bind (f a) (\<lambda>b. py_bind (py_mapM f as) (\<lambda>bs. Inr (b # bs)))"

text \<open>A dict comprehension: a later pair for a key replaces an earlier one.\<close>

definition dict_of :: "('k \<times> 'v) list \<Rightarrow> ('k \<rightharpoonup> 'v)" where
  "dict_of kvs = map_of (rev kvs)"

section \<open>The graph\<close>

text \<open>
  An edge record is the 7-tuple that \<open>load_edges\<close> appends:
  \<open>(src, sy, tgt, ty, w, themes, note)\<close>.
\<close>

type_synonym edge = "string \<times> int \<times> string \<times> int \<times> int \<times> string list \<times> string"

text \<open>The attribute dict of a graph edge, with the three keys \<open>add_edge\<close> is given.\<close>

record edge_data =
  weight :: int
  themes :: "string list"
  note_text :: string

text \<open>
  \<open>nx.Graph\<close> keeps two insertion-ordered dicts: \<open>_node\<close> from a node to its
  attributes (here the year, absent for a node that \<open>add_edge\<close> had to create) and
  \<open>_adj\<close> from a node to the dict of its neighbours, each with the edge's attributes.
  Both are association lists: \<open>AList.update\<close> replaces the value of a present key in
  place and appends an absent one, as a Python dict does.
\<close>

record graph =
  node_dict :: "(string \<times> int option) list"
  adj_dict :: "(string \<times> (string \<times> edge_data) list) list"

definition empty_graph :: graph where
  "empty_graph = \<lparr>node_dict = [], adj_dict = []\<rparr>"

definition has_node :: "graph \<Rightarrow> string \<Rightarrow> bool" where
  "has_node G n = (n \<in> set (map fst (node_dict G)))"

text \<open>\<open>G.add_node(n, year=y)\<close>\<close>

definition add_node :: "graph \<Rightarrow> string \<Rightarrow> int \<Rightarrow> graph" where
  "add_node G n y =
     (if \<not> has_node G n
      then \<lparr>node_dict = AList.update n (Some y) (node_dict G),
            adj_dict = AList.update n [] (adj_dict G)\<rparr>
      else \<lparr>node_dict = AList.update n (Some y) (node_dict G),
            adj_dict = adj_dict G\<rparr>)"

text \<open>The branch of \<open>add_edge\<close> that creates a missing endpoint, with no attributes.\<close>

definition ensure_node :: "graph \<Rightarrow> string \<Rightarrow> graph" where
  "ensure_node G n =
     (if \<not> has_node G n
      then \<lparr>node_dict = AList.update n None (node_dict G),
            adj_dict = AList.update n [] (adj_dict G)\<rparr>
      else G)"

text \<open>
  \<open>G.add_edge(u, v, weight=w, themes=themes, note=note)\<close>: the attribute dict of the
  pair is fetched (or created), updated with the three keyword arguments, which
  replaces all of its keys, and stored under \<open>_adj[u][v]\<close> and \<open>_adj[v][u]\<close>.
\<close>

definition add_edge :: "graph \<Rightarrow> string \<Rightarrow> string \<Rightarrow> edge_data \<Rightarrow> graph" where
  "add_edge G u v d =
     (let G1 = ensure_node G u;
          G2 = ensure_node G1 v;
          adj1 = AList.map_entry u (AList.update v d) (adj_dict G2);
          adj2 = AList.map_entry v (AList.update u d) adj1
      in \<lparr>node_dict = node_dict G2, adj_dict = adj2\<rparr>)"

definition build_step :: "edge \<Rightarrow> graph \<Rightarrow> graph" where
  "build_step e G =
     (case e of (src, sy, tgt, ty, w, ths, nt) \<Rightarrow>
        add_edge (add_node (add_node G src sy) tgt ty) src tgt
          \<lparr>weight = w, themes = ths, note_text = nt\<rparr>)"

definition build_graph :: "edge list \<Rightarrow> graph" where
  "build_graph edges = fold build_step edges empty_graph"

text \<open>\<open>G.nodes()\<close> iterates over the nodes in insertion order.\<close>

definition nodes :: "graph \<Rightarrow> string list" where
  "nodes G = map fst (node_dict G)"

text \<open>\<open>G.nodes[n]["year"]\<close>\<close>

definition node_year :: "graph \<Rightarrow> string \<Rightarrow> py_error + int" where
  "node_year G n =
     (case map_of (node_dict G) n of
        None \<Rightarrow> Inl KeyError
      | Some None \<Rightarrow> Inl KeyError
      | Some (Some y) \<Rightarrow> Inr y)"

text \<open>
  \<open>G.edges(data=True)\<close> of an undirected graph: for every node in insertion order and
  every neighbour of it in insertion order, the edge is reported as
  \<open>(node, neighbour, data)\<close> unless the neighbour was already visited as a node.
\<close>

fun edges_from :: "string list \<Rightarrow> (string \<times> (string \<times> edge_data) list) list \<Rightarrow>
    (string \<times> string \<times> edge_data) list" where
  "edges_from seen [] = []"
| "edges_from seen ((n, nbrs) # rest) =
     map (\<lambda>(nbr, dd). (n, nbr, dd)) (filter (\<lambda>(nbr, dd). nbr \<notin> set seen) nbrs)
       @ edges_from (n # seen) rest"

definition edges_view :: "graph \<Rightarrow> (string \<times> string \<times> edge_data) list" where
  "edges_view G = edges_from [] (adj_dict G)"

section \<open>The layout\<close>

text \<open>
  \<open>sorted(G.nodes(), key=...)\<close> computes the key of every node in order, which raises
  at the first node without a year, and sorts stably by the keys.
\<close>

definition positions :: "graph \<Rightarrow> py_error + (string \<rightharpoonup> int \<times> int)" where
  "positions G =
     py_bind (py_mapM (node_year G) (nodes G)) (\<lambda>keys.
       let nodes_sorted = map snd (sort_key fst (zip keys (nodes G)));
           y_positions = dict_of (map (\<lambda>(i, n). (n, int i)) (enumerate 0 nodes_sorted))
       in py_bind
            (py_mapM (\<lambda>n. py_bind (node_year G n) (\<lambda>yr.
               case y_positions n of None \<Rightarrow> Inl KeyError | Some i \<Rightarrow> Inr (n, (yr, i))))
              (nodes G))
            (\<lambda>kvs. Inr (dict_of kvs)))"

section \<open>Traces\<close>

text \<open>Python's \<open>str(n)\<close> of an integer and \<open>sep.join(xs)\<close>.\<close>

fun show_nat :: "nat \<Rightarrow> string" where
  "show_nat n =
     (if n < 10 then [char_of (48 + n)] else show_nat (n div 10) @ [char_of (48 + n mod 10)])"

declare show_nat.simps [simp del]

definition show_int :: "int \<Rightarrow> string" where
  "show_int i = (if i < 0 then CHR ''-'' # show_nat (nat (- i)) else show_nat (nat i))"

fun join :: "string \<Rightarrow> string list \<Rightarrow> string" where
  "join sep [] = []"
| "join sep [a] = a"
| "join sep (a # b # cs) = a @ sep @ join sep (b # cs)"

text \<open>The UTF-8 bytes of the arrow U+2192, the em dash U+2014 and the sign U+2248.\<close>

definition arrow :: string where
  "arrow = [char_of (226 :: nat), char_of (134 :: nat), char_of (146 :: nat)]"

definition em_dash :: string where
  "em_dash = [char_of (226 :: nat), char_of (128 :: nat), char_of (148 :: nat)]"

definition approx_sign :: string where
  "approx_sign = [char_of (226 :: nat), char_of (137 :: nat), char_of (136 :: nat)]"

text \<open>
  The keyword arguments given to \<open>go.Scatter\<close>; an option is \<open>None\<close> where the call
  does not give the argument. The \<open>text\<close> of an edge trace is one string, that of the
  node trace a list. The \<open>hovertext\<close> and \<open>marker\<close> of the node trace are computed in
  floating point from the degree centrality and are left out.
\<close>

datatype text_val = Str string | StrList "string list"

record scatter =
  sc_x :: "int option list"
  sc_y :: "int option list"
  sc_mode :: string
  line_width :: "rat option"
  hoverinfo :: string
  sc_text :: text_val
  opacity :: "rat option"
  visible :: "bool option"
  textposition :: "string option"
  sc_name :: string

text \<open>The f-string appended to \<open>texts\<close> for an accepted edge.\<close>

definition hover_block :: "string \<Rightarrow> string \<Rightarrow> edge_data \<Rightarrow> string" where
  "hover_block u v d =
     u @ '' '' @ arrow @ '' '' @ v @ ''<br>''
       @ ''Themes: '' @ (let j = join '', '' (themes d) in if j = [] then em_dash else j) @ ''<br>''
       @ ''Influence: '' @ show_int (weight d) @ '' / 3<br>''
       @ note_text d"

text \<open>The loop of \<open>make_edge_trace\<close> over \<open>G.edges(data=True)\<close>, on \<open>(x, y, texts)\<close>.\<close>

fun edge_loop :: "(string \<rightharpoonup> int \<times> int) \<Rightarrow> (string \<Rightarrow> string \<Rightarrow> edge_data \<Rightarrow> bool) \<Rightarrow>
    int option \<Rightarrow> (string \<times> string \<times> edge_data) list \<Rightarrow>
    int option list \<times> int option list \<times> string list \<Rightarrow>
    py_error + int option list \<times> int option list \<times> string list" where
  "edge_loop pos filter_func wt [] acc = Inr acc"
| "edge_loop pos filter_func wt ((u, v, d) # es) (x, y, texts) =
     (if \<not> filter_func u v d then edge_loop pos filter_func wt es (x, y, texts)
      else if (case wt of None \<Rightarrow> False | Some k \<Rightarrow> weight d \<noteq> k)
        then edge_loop pos filter_func wt es (x, y, texts)
      else case pos u of
          None \<Rightarrow> Inl KeyError
        | Some (x0, y0) \<Rightarrow>
            (case pos v of
               None \<Rightarrow> Inl KeyError
             | Some (x1, y1) \<Rightarrow>
                 edge_loop pos filter_func wt es
                   (x @ [Some x0, Some x1, None], y @ [Some y0, Some y1, None],
                    texts @ [hover_block u v d])))"

definition placeholder_trace :: "string \<Rightarrow> scatter" where
  "placeholder_trace name_suffix =
     \<lparr>sc_x = [None], sc_y = [None], sc_mode = ''lines'', line_width = Some 1,
      hoverinfo = ''text'', sc_text = Str [], opacity = None, visible = Some False,
      textposition = None, sc_name = ''edges'' @ name_suffix\<rparr>"

definition make_edge_trace :: "graph \<Rightarrow> (string \<rightharpoonup> int \<times> int) \<Rightarrow>
    (string \<Rightarrow> string \<Rightarrow> edge_data \<Rightarrow> bool) \<Rightarrow> int option \<Rightarrow> string \<Rightarrow> py_error + scatter" where
  "make_edge_trace G pos filter_func wt name_suffix =
     py_bind (edge_loop pos filter_func wt (edges_view G) ([], [], [])) (\<lambda>(x, y, texts).
       if x = [] then Inr (placeholder_trace name_suffix)
       else
         let width = (5 / 2) * (case wt of None \<Rightarrow> 3 / 2 | Some k \<Rightarrow> of_int k)
         in Inr \<lparr>sc_x = x, sc_y = y, sc_mode = ''lines'', line_width = Some width,
                 hoverinfo = ''text'', sc_text = Str (join ''<br>'' texts),
                 opacity = Some (6 / 10), visible = None, textposition = None,
                 sc_name = ''Edges'' @ name_suffix @
                   (case wt of
                      None \<Rightarrow> []
                    | Some k \<Rightarrow> if k \<noteq> 0 then '' (w='' @ show_int k @ '')'' else [])\<rparr>)"

text \<open>
  The node trace built in \<open>main\<close>; \<open>node_label\<close> is the f-string of its \<open>text\<close>.
\<close>

definition pos_item :: "(string \<rightharpoonup> int \<times> int) \<Rightarrow> string \<Rightarrow> py_error + int \<times> int" where
  "pos_item pos n = (case pos n of None \<Rightarrow> Inl KeyError | Some p \<Rightarrow> Inr p)"

definition node_label :: "string \<Rightarrow> int \<Rightarrow> string" where
  "node_label n yr = n @ ''<br>Year'' @ approx_sign @ show_int yr"

definition make_node_trace :: "graph \<Rightarrow> (string \<rightharpoonup> int \<times> int) \<Rightarrow> py_error + scatter" where
  "make_node_trace G pos =
     py_bind (py_mapM (\<lambda>n. py_bind (pos_item pos n) (\<lambda>p. Inr (Some (fst p)))) (nodes G)) (\<lambda>x.
     py_bind (py_mapM (\<lambda>n. py_bind (pos_item pos n) (\<lambda>p. Inr (Some (snd p)))) (nodes G)) (\<lambda>y.
     py_bind (py_mapM (\<lambda>n. py_bind (node_year G n) (\<lambda>yr. Inr (node_label n yr))) (nodes G))
       (\<lambda>labels.
       Inr \<lparr>sc_x = x, sc_y = y, sc_mode = ''markers+text'', line_width = None,
            hoverinfo = ''text'', sc_text = StrList labels, opacity = None, visible = None,
            textposition = Some ''top center'', sc_name = ''Works''\<rparr>)))"

section \<open>The dropdown menu\<close>

text \<open>\<open>xs[i] = v\<close> on a Python list, and \<open>xs.index(a)\<close>.\<close>

definition py_setitem :: "'a list \<Rightarrow> int \<Rightarrow> 'a \<Rightarrow> py_error + 'a list" where
  "py_setitem xs i v =
     (let n = int (length xs); j = (if i < 0 then i + n else i)
      in if 0 \<le> j \<and> j < n then Inr (xs[nat j := v]) else Inl IndexError)"

fun py_index :: "'a list \<Rightarrow> 'a \<Rightarrow> py_error + nat" where
  "py_index [] a = Inl ValueError"
| "py_index (b # bs) a =
     (if b = a then Inr 0 else py_bind (py_index bs a) (\<lambda>i. Inr (Suc i)))"

text \<open>
  The two closures of \<open>main\<close>, with the variables they capture (\<open>num_traces\<close>,
  \<open>node_idx\<close>, \<open>theme_traces\<close>) as parameters.
\<close>

definition vis_all :: "nat \<Rightarrow> int \<Rightarrow> py_error + bool list" where
  "vis_all num_traces node_idx =
     py_bind (py_setitem (replicate num_traces False) 0 True) (\<lambda>vis.
     py_bind (py_setitem vis 1 True) (\<lambda>vis.
     py_setitem vis node_idx True))"

definition vis_for_theme :: "(string \<times> scatter \<times> scatter) list \<Rightarrow> nat \<Rightarrow> int \<Rightarrow> string \<Rightarrow>
    py_error + bool list" where
  "vis_for_theme theme_traces num_traces node_idx theme =
     (let vis = replicate num_traces False;
          theme_names = map fst theme_traces
      in py_bind (py_index theme_names theme) (\<lambda>t_idx.
           let base = 2 + int t_idx * 2
           in py_bind (py_setitem vis base True) (\<lambda>vis.
              py_bind (py_setitem vis (base + 1) True) (\<lambda>vis.
              py_setitem vis node_idx True))))"

section \<open>The figure\<close>

text \<open>
  The figure holds the traces, in order, and the dropdown's buttons, each a label with
  its visibility vector. The constant layout options are left out.
\<close>

record figure =
  fig_data :: "scatter list"
  buttons :: "(string \<times> bool list) list"

definition theme_filter :: "string \<Rightarrow> string \<Rightarrow> string \<Rightarrow> edge_data \<Rightarrow> bool" where
  "theme_filter th u v d = (th \<in> set (themes d))"

text \<open>The loop over \<open>all_themes\<close>, on \<open>(theme_traces, traces)\<close>.\<close>

fun theme_loop :: "graph \<Rightarrow> (string \<rightharpoonup> int \<times> int) \<Rightarrow> string list \<Rightarrow>
    (string \<times> scatter \<times> scatter) list \<times> scatter list \<Rightarrow>
    py_error + (string \<times> scatter \<times> scatter) list \<times> scatter list" where
  "theme_loop G pos [] acc = Inr acc"
| "theme_loop G pos (theme # rest) (theme_traces, traces) =
     py_bind (make_edge_trace G pos (theme_filter theme) (Some 2) (''_'' @ theme @ ''_w2''))
       (\<lambda>tr_w2.
     py_bind (make_edge_trace G pos (theme_filter theme) (Some 3) (''_'' @ theme @ ''_w3''))
       (\<lambda>tr_w3.
     theme_loop G pos rest (theme_traces @ [(theme, tr_w2, tr_w3)], traces @ [tr_w2, tr_w3])))"

text \<open>\<open>sorted({t for _,_,_,_,_,ts,_ in edges for t in ts})\<close>\<close>

definition edge_themes :: "edge \<Rightarrow> string list" where
  "edge_themes e = (case e of (src, sy, tgt, ty, w, ts, nt) \<Rightarrow> ts)"

definition all_themes :: "edge list \<Rightarrow> string list" where
  "all_themes edges = sorted_list_of_set (set (concat (map edge_themes edges)))"

text \<open>The traces of \<open>main\<close>, from \<open>traces = []\<close> to \<open>traces.append(node_trace)\<close>.\<close>

definition build_traces :: "graph \<Rightarrow> (string \<rightharpoonup> int \<times> int) \<Rightarrow> string list \<Rightarrow>
    py_error + (string \<times> scatter \<times> scatter) list \<times> scatter list" where
  "build_traces G pos ths =
     py_bind (make_edge_trace G pos (\<lambda>u v d. True) (Some 2) ''_all_w2'') (\<lambda>all_w2.
     py_bind (make_edge_trace G pos (\<lambda>u v d. True) (Some 3) ''_all_w3'') (\<lambda>all_w3.
     py_bind (theme_loop G pos ths ([], [all_w2, all_w3])) (\<lambda>(theme_traces, traces).
     py_bind (make_node_trace G pos) (\<lambda>node_trace.
       Inr (theme_traces, traces @ [node_trace])))))"

definition build_buttons :: "(string \<times> scatter \<times> scatter) list \<Rightarrow> nat \<Rightarrow>
    py_error + (string \<times> bool list) list" where
  "build_buttons theme_traces num_traces =
     (let node_idx = int num_traces - 1
      in py_bind (vis_all num_traces node_idx) (\<lambda>va.
         py_bind (py_mapM (\<lambda>(theme, tr_w2, tr_w3).
                    py_bind (vis_for_theme theme_traces num_traces node_idx theme)
                      (\<lambda>vt. Inr (theme, vt))) theme_traces) (\<lambda>bs.
           Inr ((''All themes'', va) # bs))))"

text \<open>The body of \<open>main\<close> from \<open>G = build_graph(edges)\<close> to \<open>fig.update_layout\<close>.\<close>

definition build_figure :: "edge list \<Rightarrow> py_error + figure" where
  "build_figure edges =
     (let G = build_graph edges
      in py_bind (positions G) (\<lambda>pos.
         py_bind (build_traces G pos (all_themes edges)) (\<lambda>(theme_traces, traces).
         py_bind (build_buttons theme_traces (length traces)) (\<lambda>bs.
           Inr \<lparr>fig_data = traces, buttons = bs\<rparr>))))"

section \<open>Loading the CSV\<close>

text \<open>
  \<open>int(s)\<close> on a string: surrounding whitespace is ignored, a sign may come first, and
  the decimal digits may be grouped by single underscores. \<open>None\<close> stands for the
  \<open>ValueError\<close>. The interpreter's limit on the number of digits is not modelled.
\<close>

definition is_digit :: "char \<Rightarrow> bool" where
  "is_digit c = (48 \<le> (of_char c :: nat) \<and> (of_char c :: nat) \<le> 57)"

fun int_digits :: "nat \<Rightarrow> string \<Rightarrow> nat option" where
  "int_digits acc [] = None"
| "int_digits acc (c # cs) =
     (if \<not> is_digit c then None
      else let acc' = acc * 10 + (of_char c - 48)
           in case cs of
                [] \<Rightarrow> Some acc'
              | d # ds \<Rightarrow> if d = CHR ''_'' then int_digits acc' ds else int_digits acc' cs)"

definition py_int :: "string \<Rightarrow> int option" where
  "py_int s =
     (case strip s of
        [] \<Rightarrow> None
      | c # cs \<Rightarrow>
          if c = CHR ''-'' then map_option (\<lambda>n. - int n) (int_digits 0 cs)
          else if c = CHR ''+'' then map_option int (int_digits 0 cs)
          else map_option int (int_digits 0 (c # cs)))"

text \<open>\<open>s.split(sep)\<close> for a one-character separator.\<close>

fun split :: "char \<Rightarrow> string \<Rightarrow> string list" where
  "split sep [] = [[]]"
| "split sep (c # cs) =
     (if c = sep then [] # split sep cs
      else case split sep cs of [] \<Rightarrow> [[c]] | w # ws \<Rightarrow> (c # w) # ws)"

text \<open>
  A row of \<open>csv.DictReader\<close> maps the column names of the header to the row's cells;
  the cell of a column that a short row does not reach is Python's \<open>None\<close>.
\<close>

type_synonym row = "string \<rightharpoonup> string option"

text \<open>\<open>row[k].strip()\<close>, \<open>int(row[k])\<close> and \<open>row.get(k, "")\<close>.\<close>

definition cell_strip :: "row \<Rightarrow> string \<Rightarrow> py_error + string" where
  "cell_strip r k =
     (case r k of
        None \<Rightarrow> Inl KeyError
      | Some None \<Rightarrow> Inl AttributeError
      | Some (Some s) \<Rightarrow> Inr (strip s))"

definition cell_int :: "row \<Rightarrow> string \<Rightarrow> py_error + int" where
  "cell_int r k =
     (case r k of
        None \<Rightarrow> Inl KeyError
      | Some None \<Rightarrow> Inl TypeError
      | Some (Some s) \<Rightarrow> (case py_int s of None \<Rightarrow> Inl ValueError | Some i \<Rightarrow> Inr i))"

definition cell_get :: "row \<Rightarrow> string \<Rightarrow> py_error + string" where
  "cell_get r k =
     (case r k of
        None \<Rightarrow> Inr []
      | Some None \<Rightarrow> Inl AttributeError
      | Some (Some s) \<Rightarrow> Inr s)"

definition parse_row :: "row \<Rightarrow> py_error + edge" where
  "parse_row r =
     py_bind (cell_strip r ''source_title'') (\<lambda>src.
     py_bind (cell_int r ''source_year'') (\<lambda>sy.
     py_bind (cell_strip r ''target_title'') (\<lambda>tgt.
     py_bind (cell_int r ''target_year'') (\<lambda>ty.
     py_bind (cell_int r ''weight'') (\<lambda>w.
     py_bind (cell_get r ''themes'') (\<lambda>ts.
     py_bind (cell_get r ''note'') (\<lambda>nt.
       Inr (src, sy, tgt, ty, w,
            map normalize_theme (filter (\<lambda>t. strip t \<noteq> []) (split CHR '';'' ts)),
            strip nt))))))))"

definition load_edges :: "row list \<Rightarrow> py_error + edge list" where
  "load_edges rows = py_mapM parse_row rows"

section \<open>The process\<close>

text \<open>
  A path is the list of its components below the root. The file system holds what the
  script touches: whether the directory \<open>assets\<close> exists, the rows of \<open>edges.csv\<close>
  if the file exists, and the figure written to \<open>assets/interactive.html\<close> if that
  file exists. Creating the directory and writing the file are taken to succeed.
\<close>

type_synonym path = "string list"

definition path_str :: "path \<Rightarrow> string" where
  "path_str p = (if p = [] then ''/'' else concat (map (\<lambda>c. ''/'' @ c) p))"

record files =
  assets_dir :: bool
  edges_csv :: "row list option"
  interactive_html :: "figure option"

datatype out_line = Line string | Traceback py_error

record outcome =
  exit_code :: int
  stderr :: "out_line list"
  stdout :: "out_line list"
  files_after :: files

text \<open>\<open>ASSETS.mkdir(parents=True, exist_ok=True)\<close>, run when the module is loaded.\<close>

definition module_load :: "files \<Rightarrow> files" where
  "module_load fs = fs\<lparr>assets_dir := True\<rparr>"

text \<open>
  \<open>main\<close>. An exception that nothing catches ends the process with status 1 and its
  traceback on the standard error.
\<close>

definition main :: "path \<Rightarrow> files \<Rightarrow> outcome" where
  "main repo_root fs =
     (let csv_path = repo_root @ [''edges.csv'']
      in case edges_csv fs of
           None \<Rightarrow>
             \<lparr>exit_code = 1, stderr = [Line (''CSV not found at '' @ path_str csv_path)],
              stdout = [], files_after = fs\<rparr>
         | Some rows \<Rightarrow>
             (case load_edges rows of
                Inl e \<Rightarrow> \<lparr>exit_code = 1, stderr = [Traceback e], stdout = [], files_after = fs\<rparr>
              | Inr edges \<Rightarrow>
                  if edges = [] then
                    \<lparr>exit_code = 1, stderr = [Line ''No edges found in CSV.''],
                     stdout = [], files_after = fs\<rparr>
                  else
                    (case build_figure edges of
                       Inl e \<Rightarrow>
                         \<lparr>exit_code = 1, stderr = [Traceback e], stdout = [], files_after = fs\<rparr>
                     | Inr fig \<Rightarrow>
                         let out_html = repo_root @ [''assets'', ''interactive.html'']
                         in \<lparr>exit_code = 0, stderr = [],
                             stdout = [Line (''Wrote '' @ path_str out_html)],
                             files_after = fs\<lparr>interactive_html := Some fig\<rparr>\<rparr>)))"

text \<open>Running the script: the module is loaded, then \<open>main()\<close> is called.\<close>

definition run_script :: "path \<Rightarrow> files \<Rightarrow> outcome" where
  "run_script repo_root fs = main repo_root (module_load fs)"

section \<open>Definitions for the statements\<close>

text \<open>
  The years that the edge records give to a title, in the order of the records (within a
  record, the source's before the target's), and the last of them.
\<close>

definition mentions :: "edge list \<Rightarrow> (string \<times> int) list" where
  "mentions edges =
     concat (map (\<lambda>(src, sy, tgt, ty, w, ts, nt). [(src, sy), (tgt, ty)]) edges)"

definition last_seen_year :: "edge list \<Rightarrow> string \<Rightarrow> int option" where
  "last_seen_year edges n = map_of (rev (mentions edges)) n"

text \<open>The attributes stored under \<open>_adj[u][v]\<close>, and the invariant of a built graph.\<close>

definition nbr_data :: "graph \<Rightarrow> string \<Rightarrow> string \<Rightarrow> edge_data option" where
  "nbr_data G u v = (case map_of (adj_dict G) u of None \<Rightarrow> None | Some nb \<Rightarrow> map_of nb v)"

definition wf_graph :: "graph \<Rightarrow> bool" where
  "wf_graph G \<longleftrightarrow>
     distinct (map fst (node_dict G)) \<and>
     map fst (adj_dict G) = map fst (node_dict G) \<and>
     (\<forall>p \<in> set (node_dict G). snd p \<noteq> None) \<and>
     (\<forall>p \<in> set (adj_dict G). distinct (map fst (snd p)) \<and>
        set (map fst (snd p)) \<subseteq> set (map fst (node_dict G)))"

text \<open>
  The rank of a node in a stable ascending sort by year: the number of nodes with a
  smaller year plus the number of nodes with the same year that come before it in the
  insertion order. \<open>index_of\<close> is the first position of an element of a list.
\<close>

definition year_rank :: "('a \<Rightarrow> int) \<Rightarrow> 'a list \<Rightarrow> 'a \<Rightarrow> nat" where
  "year_rank f ns n =
     length (filter (\<lambda>m. f m < f n) ns)
       + length (filter (\<lambda>m. f m = f n) (takeWhile (\<lambda>m. m \<noteq> n) ns))"

definition index_of :: "'a list \<Rightarrow> 'a \<Rightarrow> nat" where
  "index_of xs a = length (takeWhile (\<lambda>m. m \<noteq> a) xs)"

text \<open>
  \<open>accepts\<close> holds of an edge that passes the two tests of the loop of
  \<open>make_edge_trace\<close>: the filter and the weight. \<open>trace_calls\<close> lists
  the calls that make the traces, in the order of the trace list: the two aggregate
  calls, a weight-2 and a weight-3 call for every theme, and the node trace.
  \<open>vis_at n js\<close> is the vector of length \<open>n\<close> that is true exactly at the positions
  \<open>js\<close>, and \<open>theme_set\<close> the set of the themes of the edge records.
\<close>

definition accepts :: "(string \<Rightarrow> string \<Rightarrow> edge_data \<Rightarrow> bool) \<Rightarrow> int option \<Rightarrow>
    string \<times> string \<times> edge_data \<Rightarrow> bool" where
  "accepts filter_func wt e =
     (case e of (u, v, d) \<Rightarrow>
        filter_func u v d \<and> (case wt of None \<Rightarrow> True | Some k \<Rightarrow> weight d = k))"

definition trace_calls :: "graph \<Rightarrow> (string \<rightharpoonup> int \<times> int) \<Rightarrow> string list \<Rightarrow>
    (py_error + scatter) list" where
  "trace_calls G pos ths =
     [make_edge_trace G pos (\<lambda>u v d. True) (Some 2) ''_all_w2'',
      make_edge_trace G pos (\<lambda>u v d. True) (Some 3) ''_all_w3'']
     @ concat (map (\<lambda>th.
         [make_edge_trace G pos (theme_filter th) (Some 2) (''_'' @ th @ ''_w2''),
          make_edge_trace G pos (theme_filter th) (Some 3) (''_'' @ th @ ''_w3'')]) ths)
     @ [make_node_trace G pos]"

definition vis_at :: "nat \<Rightarrow> nat list \<Rightarrow> bool list" where
  "vis_at n js = map (\<lambda>j. j \<in> set js) [0..<n]"

definition theme_set :: "edge list \<Rightarrow> string set" where
  "theme_set edges = (\<Union>e \<in> set edges. set (edge_themes e))"

text \<open>
  The two-row scenario of the specification, and an input with one edge of weight 1 and
  no theme.
\<close>

definition example_rows :: "row list" where
  "example_rows =
     [map_of [(''source_title'', Some ''A''), (''source_year'', Some ''1800''),
              (''target_title'', Some ''B''), (''target_year'', Some ''1810''),
              (''weight'', Some ''2''), (''themes'', Some ''freedom''), (''note'', Some '''')],
      map_of [(''source_title'', Some ''B''), (''source_year'', Some ''1810''),
              (''target_title'', Some ''C''), (''target_year'', Some ''1850''),
              (''weight'', Some ''3''), (''themes'', Some ''freedom;abolition''),
              (''note'', Some ''x'')]]"

definition example_edges :: "edge list" where
  "example_edges =
     [(''A'', 1800, ''B'', 1810, 2, [''freedom''], ''''),
      (''B'', 1810, ''C'', 1850, 3, [''freedom'', ''abolition''], ''x'')]"

definition example_files :: files where
  "example_files = \<lparr>assets_dir = False, edges_csv = Some example_rows, interactive_html = None\<rparr>"

definition plain_rows :: "row list" where
  "plain_rows =
     [map_of [(''source_title'', Some ''A''), (''source_year'', Some ''1800''),
              (''target_title'', Some ''B''), (''target_year'', Some ''1810''),
              (''weight'', Some ''1''), (''themes'', Some '' ''), (''note'', Some '''')]]"

definition plain_edges :: "edge list" where
  "plain_edges = [(''A'', 1800, ''B'', 1810, 1, [], '''')]"

definition plain_files :: files where
  "plain_files = \<lparr>assets_dir = True, edges_csv = Some plain_rows, interactive_html = None\<rparr>"

text \<open>
  The set of the two titles of a record and the attributes it gives to its edge;
  \<open>pair_data\<close> is the attributes of the last record with a given pair of titles, in
  either direction. \<open>joins s t\<close> holds of a reported edge between \<open>s\<close> and \<open>t\<close>, and
  \<open>titles\<close> is the set of the titles that the records name.
\<close>

definition edge_pair :: "edge \<Rightarrow> string set" where
  "edge_pair e = (case e of (src, sy, tgt, ty, w, ts, nt) \<Rightarrow> {src, tgt})"

definition edge_attrs :: "edge \<Rightarrow> edge_data" where
  "edge_attrs e =
     (case e of (src, sy, tgt, ty, w, ts, nt) \<Rightarrow> \<lparr>weight = w, themes = ts, note_text = nt\<rparr>)"

definition pair_data :: "edge list \<Rightarrow> string \<Rightarrow> string \<Rightarrow> edge_data option" where
  "pair_data edges u v = map_option edge_attrs (find (\<lambda>e. edge_pair e = {u, v}) (rev edges))"

definition joins :: "string \<Rightarrow> string \<Rightarrow> string \<times> string \<times> edge_data \<Rightarrow> bool" where
  "joins s t e = (case e of (u, v, d) \<Rightarrow> {u, v} = {s, t})"

definition titles :: "edge list \<Rightarrow> string set" where
  "titles edges = fst ` set (mentions edges)"

section \<open>Theme normalisation\<close>











section \<open>Exceptions and dicts\<close>

lemma py_bind_Inr [simp]: "py_bind (Inr a) f = f a"
  by (simp add: py_bind_def)

lemma py_bind_Inl [simp]: "py_bind (Inl e) f = Inl e"
  by (simp add: py_bind_def)

lemma py_bind_eq_Inr: "py_bind m f = Inr b \<longleftrightarrow> (\<exists>a. m = Inr a \<and> f a = Inr b)"
  by (cases m) simp_all

lemma py_mapM_Inr: "(\<And>a. a \<in> set as \<Longrightarrow> f a = Inr (g a)) \<Longrightarrow> py_mapM f as = Inr (map g as)"
  by (induction as) simp_all

lemma map_fst_map_entry: "map fst (AList.map_entry k f xs) = map fst xs"
  by (induction xs) simp_all

lemma dict_of_Some: "distinct (map fst kvs) \<Longrightarrow> dict_of kvs k = Some v \<longleftrightarrow> (k, v) \<in> set kvs"
  by (simp add: dict_of_def rev_map [symmetric])

lemma dict_of_None: "dict_of kvs k = None \<longleftrightarrow> k \<notin> fst ` set kvs"
  by (simp add: dict_of_def map_of_eq_None_iff)

section \<open>The built graph\<close>

lemma wf_empty: "wf_graph empty_graph"
  by (simp add: wf_graph_def empty_graph_def)

lemma has_node_add_node: "has_node (add_node G n y) m \<longleftrightarrow> m = n \<or> has_node G m"
  by (auto simp add: has_node_def add_node_def AList.dom_update)

lemma set_update_subset: "set (AList.update k v al) \<subseteq> insert (k, v) (set al)"
  by (induction al) auto

lemma wf_add_node:
  assumes "wf_graph G"
  shows "wf_graph (add_node G n y)"
proof -
  have d: "distinct (map fst (node_dict G))"
    and k: "map fst (adj_dict G) = map fst (node_dict G)"
    and y: "\<forall>p \<in> set (node_dict G). snd p \<noteq> None"
    and a: "\<forall>p \<in> set (adj_dict G). distinct (map fst (snd p)) \<and>
        set (map fst (snd p)) \<subseteq> set (map fst (node_dict G))"
    using assms by (simp_all add: wf_graph_def)
  let ?N = "AList.update n (Some y) (node_dict G)"
  have d': "distinct (map fst ?N)"
    using d by (rule AList.distinct_update)
  have y': "\<forall>p \<in> set ?N. snd p \<noteq> None"
  proof
    fix p assume "p \<in> set ?N"
    then have "p = (n, Some y) \<or> p \<in> set (node_dict G)"
      using set_update_subset [of n "Some y" "node_dict G"] by blast
    with y show "snd p \<noteq> None" by auto
  qed
  have sub: "set (map fst (node_dict G)) \<subseteq> set (map fst ?N)"
    by (auto simp add: AList.dom_update)
  show ?thesis
  proof (cases "has_node G n")
    case True
    then have "map fst ?N = map fst (node_dict G)"
      by (simp add: has_node_def AList.update_keys)
    with True d' y' a k show ?thesis
      by (simp add: wf_graph_def add_node_def del: set_map)
  next
    case False
    then have nk: "n \<notin> set (map fst (adj_dict G))"
      by (simp add: has_node_def k)
    have k': "map fst (AList.update n [] (adj_dict G)) = map fst ?N"
      using False nk k by (simp add: has_node_def AList.update_keys)
    have "\<forall>p \<in> set (AList.update n [] (adj_dict G)). distinct (map fst (snd p)) \<and>
        set (map fst (snd p)) \<subseteq> set (map fst ?N)"
    proof
      fix p assume "p \<in> set (AList.update n [] (adj_dict G))"
      then have "p = (n, []) \<or> p \<in> set (adj_dict G)"
        using set_update_subset [of n "[]" "adj_dict G"] by blast
      then show "distinct (map fst (snd p)) \<and> set (map fst (snd p)) \<subseteq> set (map fst ?N)"
      proof
        assume "p = (n, [])"
        then show ?thesis by simp
      next
        assume "p \<in> set (adj_dict G)"
        with a have "distinct (map fst (snd p))"
          "set (map fst (snd p)) \<subseteq> set (map fst (node_dict G))" by blast+
        with sub show ?thesis by blast
      qed
    qed
    with False d' y' k' show ?thesis
      by (simp add: wf_graph_def add_node_def del: set_map)
  qed
qed

lemma ensure_node_present: "has_node G n \<Longrightarrow> ensure_node G n = G"
  by (simp add: ensure_node_def)

lemma set_map_entry_update:
  "p \<in> set (AList.map_entry k (AList.update v d) al) \<Longrightarrow>
     p \<in> set al \<or> (\<exists>nb. (k, nb) \<in> set al \<and> p = (k, AList.update v d nb))"
  by (induction al) (auto split: if_splits)

lemma wf_add_edge:
  assumes "wf_graph G" "has_node G u" "has_node G v"
  shows "wf_graph (add_edge G u v dd)"
proof -
  have d: "distinct (map fst (node_dict G))"
    and k: "map fst (adj_dict G) = map fst (node_dict G)"
    and y: "\<forall>p \<in> set (node_dict G). snd p \<noteq> None"
    and a: "\<forall>p \<in> set (adj_dict G). distinct (map fst (snd p)) \<and>
        set (map fst (snd p)) \<subseteq> set (map fst (node_dict G))"
    using assms by (simp_all add: wf_graph_def)
  have step: "\<forall>p \<in> set (AList.map_entry a (AList.update b dd) al).
      distinct (map fst (snd p)) \<and> set (map fst (snd p)) \<subseteq> set (map fst (node_dict G))"
    if "\<forall>p \<in> set al. distinct (map fst (snd p)) \<and>
        set (map fst (snd p)) \<subseteq> set (map fst (node_dict G))"
      and "has_node G b" for a b :: string and al :: "(string \<times> (string \<times> edge_data) list) list"
  proof
    fix p assume "p \<in> set (AList.map_entry a (AList.update b dd) al)"
    then consider "p \<in> set al" | nb where "(a, nb) \<in> set al" "p = (a, AList.update b dd nb)"
      using set_map_entry_update [of p a b dd al] by auto
    then show "distinct (map fst (snd p)) \<and> set (map fst (snd p)) \<subseteq> set (map fst (node_dict G))"
    proof cases
      case 1
      with that show ?thesis by blast
    next
      case 2
      with that(1) have "distinct (map fst nb)" "set (map fst nb) \<subseteq> set (map fst (node_dict G))"
        by force+
      with 2 that(2) show ?thesis
        by (auto simp add: AList.distinct_update AList.dom_update has_node_def)
    qed
  qed
  have "add_edge G u v dd = \<lparr>node_dict = node_dict G,
      adj_dict = AList.map_entry v (AList.update u dd)
        (AList.map_entry u (AList.update v dd) (adj_dict G))\<rparr>"
    using assms(2,3) by (simp add: add_edge_def ensure_node_present Let_def)
  moreover have "\<forall>p \<in> set (AList.map_entry v (AList.update u dd)
        (AList.map_entry u (AList.update v dd) (adj_dict G))).
      distinct (map fst (snd p)) \<and> set (map fst (snd p)) \<subseteq> set (map fst (node_dict G))"
    by (rule step [OF step [OF a assms(3)] assms(2)])
  ultimately show ?thesis
    using d k y by (simp add: wf_graph_def map_fst_map_entry)
qed

lemma wf_build_step: "wf_graph G \<Longrightarrow> wf_graph (build_step e G)"
  by (cases e) (simp add: build_step_def wf_add_edge wf_add_node has_node_add_node)

lemma build_graph_snoc: "build_graph (es @ [e]) = build_step e (build_graph es)"
  by (simp add: build_graph_def)

lemma wf_build_graph: "wf_graph (build_graph es)"
  by (induction es rule: rev_induct)
    (simp_all add: build_graph_snoc wf_build_step, simp add: build_graph_def wf_empty)

lemma node_dict_build_step:
  "node_dict (build_step (s, sy, t, ty, w, ths, nt) G) =
     AList.update t (Some ty) (AList.update s (Some sy) (node_dict G))"
proof -
  let ?G2 = "add_node (add_node G s sy) t ty"
  have "has_node ?G2 s" "has_node ?G2 t"
    by (simp_all add: has_node_add_node)
  then have "node_dict (add_edge ?G2 s t d) = node_dict ?G2" for d
    by (simp add: add_edge_def ensure_node_present Let_def)
  moreover have "node_dict (add_node H n y) = AList.update n (Some y) (node_dict H)" for H n y
    by (simp add: add_node_def)
  ultimately show ?thesis
    by (simp add: build_step_def)
qed

lemma last_seen_year_snoc:
  "last_seen_year (es @ [(s, sy, t, ty, w, ths, nt)]) n =
     (if n = t then Some ty else if n = s then Some sy else last_seen_year es n)"
  by (simp add: last_seen_year_def mentions_def)

lemma node_dict_build_graph:
  "map_of (node_dict (build_graph es)) n = map_option Some (last_seen_year es n)"
proof (induction es rule: rev_induct)
  case Nil
  show ?case
    by (simp add: build_graph_def empty_graph_def last_seen_year_def mentions_def)
next
  case (snoc e es)
  obtain s sy t ty w ths nt where e: "e = (s, sy, t, ty, w, ths, nt)"
    by (cases e) blast
  show ?case
    using snoc.IH
    by (simp add: e build_graph_snoc node_dict_build_step last_seen_year_snoc AList.update_conv')
qed

lemma node_year_build_graph:
  "node_year (build_graph es) n =
     (case last_seen_year es n of None \<Rightarrow> Inl KeyError | Some y \<Rightarrow> Inr y)"
  by (simp add: node_year_def node_dict_build_graph split: option.split)

lemma nodes_build_graph: "set (nodes (build_graph es)) = dom (last_seen_year es)"
proof -
  have "n \<in> set (nodes (build_graph es)) \<longleftrightarrow> last_seen_year es n \<noteq> None" for n
  proof -
    have "n \<in> set (nodes (build_graph es)) \<longleftrightarrow> map_of (node_dict (build_graph es)) n \<noteq> None"
      by (simp add: nodes_def map_of_eq_None_iff)
    then show ?thesis
      by (simp add: node_dict_build_graph)
  qed
  then show ?thesis by (auto simp add: dom_def)
qed

section \<open>The layout\<close>

lemma index_of_Cons: "index_of (b # bs) a = (if b = a then 0 else Suc (index_of bs a))"
  by (simp add: index_of_def)

lemma index_of_less: "a \<in> set xs \<Longrightarrow> index_of xs a < length xs"
  by (induction xs) (auto simp add: index_of_Cons)

lemma nth_index_of: "a \<in> set xs \<Longrightarrow> xs ! index_of xs a = a"
  by (induction xs) (auto simp add: index_of_Cons)

lemma index_of_insort_other:
  fixes f :: "'a \<Rightarrow> int"
  assumes "sorted (map f S)" "n \<in> set S" "n \<noteq> a"
  shows "index_of (insort_key f a S) n = index_of S n + (if f a \<le> f n then 1 else 0)"
  using assms
proof (induction S)
  case Nil
  then show ?case by simp
next
  case (Cons b S)
  show ?case
  proof (cases "f a \<le> f b")
    case True
    have "f b \<le> f n" using Cons.prems(1,2) by auto
    with True Cons.prems(3) show ?thesis
      by (simp add: index_of_Cons)
  next
    case False
    show ?thesis
    proof (cases "b = n")
      case True
      with False show ?thesis by (simp add: index_of_Cons)
    next
      case nb: False
      with Cons.prems have "n \<in> set S" "sorted (map f S)" by simp_all
      from Cons.IH [OF this(2) this(1) Cons.prems(3)] False nb show ?thesis
        by (simp add: index_of_Cons)
    qed
  qed
qed

lemma index_of_insort_self:
  fixes f :: "'a \<Rightarrow> int"
  assumes "sorted (map f S)" "a \<notin> set S"
  shows "index_of (insort_key f a S) a = length (filter (\<lambda>m. f m < f a) S)"
  using assms
proof (induction S)
  case Nil
  then show ?case by (simp add: index_of_Cons)
next
  case (Cons b S)
  show ?case
  proof (cases "f a \<le> f b")
    case True
    have "\<forall>m \<in> set (b # S). f b \<le> f m" using Cons.prems(1) by auto
    with True have "filter (\<lambda>m. f m < f a) (b # S) = []"
      by (auto simp add: filter_empty_conv simp del: filter.simps)
    with True show ?thesis by (simp add: index_of_Cons del: filter.simps)
  next
    case False
    with Cons show ?thesis by (auto simp add: index_of_Cons)
  qed
qed

lemma length_filter_sort_key: "length (filter P (sort_key f xs)) = length (filter P xs)"
  by (simp add: filter_sort)

lemma index_of_sort_key:
  fixes f :: "'a \<Rightarrow> int"
  assumes "distinct xs" "n \<in> set xs"
  shows "index_of (sort_key f xs) n = year_rank f xs n"
  using assms
proof (induction xs)
  case Nil
  then show ?case by simp
next
  case (Cons a xs)
  have s: "sorted (map f (sort_key f xs))" by (rule sorted_sort_key)
  show ?case
  proof (cases "n = a")
    case True
    have "a \<notin> set (sort_key f xs)" using Cons.prems(1) by simp
    from index_of_insort_self [OF s this] True show ?thesis
      by (simp add: year_rank_def length_filter_sort_key)
  next
    case False
    with Cons.prems have n: "n \<in> set xs" "distinct xs" by simp_all
    then have "n \<in> set (sort_key f xs)" by simp
    from index_of_insort_other [OF s this False] Cons.IH [OF n(2) n(1)] False
    show ?thesis
      by (auto simp add: year_rank_def)
  qed
qed

lemma insort_key_pair:
  "insort_key fst (f a, a) (map (\<lambda>n. (f n, n)) xs) = map (\<lambda>n. (f n, n)) (insort_key f a xs)"
  by (induction xs) simp_all

lemma sort_key_pair:
  "sort_key fst (map (\<lambda>n. (f n, n)) xs) = map (\<lambda>n. (f n, n)) (sort_key f xs)"
  by (induction xs) (simp_all add: insort_key_pair)

lemma zip_map_self: "zip (map f xs) xs = map (\<lambda>n. (f n, n)) xs"
  by (induction xs) simp_all

lemma nodes_sorted_eq: "map snd (sort_key fst (zip (map f xs) xs)) = sort_key f xs"
  by (simp add: zip_map_self sort_key_pair comp_def)

lemma y_positions_nth:
  assumes "distinct S" "i < length S"
  shows "dict_of (map (\<lambda>(i, n). (n, int i)) (enumerate 0 S)) (S ! i) = Some (int i)"
proof -
  have "map fst (map (\<lambda>(i, n). (n, int i)) (enumerate 0 S)) = S"
    by (simp add: enumerate_eq_zip comp_def case_prod_beta)
  moreover have "(S ! i, int i) \<in> set (map (\<lambda>(i, n). (n, int i)) (enumerate 0 S))"
    using assms(2) by (force simp add: in_set_enumerate_eq)
  ultimately show ?thesis
    using assms(1) by (simp add: dict_of_Some)
qed

lemma distinct_nodes: "wf_graph G \<Longrightarrow> distinct (nodes G)"
  by (simp add: wf_graph_def nodes_def)

lemma positions_build_graph:
  fixes es :: "edge list"
  defines "G \<equiv> build_graph es"
  defines "yr \<equiv> \<lambda>n. the (last_seen_year es n)"
  defines "S \<equiv> sort_key yr (nodes G)"
  shows "\<exists>pos. positions G = Inr pos \<and> dom pos = set (nodes G) \<and>
           (\<forall>i < length S. pos (S ! i) = Some (yr (S ! i), int i))"
proof -
  define yp where "yp = dict_of (map (\<lambda>(i, n). (n, int i)) (enumerate 0 S))"
  define kvs where "kvs = map (\<lambda>n. (n, (yr n, the (yp n)))) (nodes G)"
  have dn: "distinct (nodes G)"
    unfolding G_def by (rule distinct_nodes) (rule wf_build_graph)
  have dS: "distinct S" and sS: "set S = set (nodes G)"
    using dn by (simp_all add: S_def)
  have ny: "node_year G n = Inr (yr n)" if "n \<in> set (nodes G)" for n
    using that unfolding G_def yr_def
    by (auto simp add: node_year_build_graph nodes_build_graph)
  have keys: "py_mapM (node_year G) (nodes G) = Inr (map yr (nodes G))"
    by (rule py_mapM_Inr) (rule ny)
  have yp_nth: "yp (S ! i) = Some (int i)" if "i < length S" for i
    unfolding yp_def using dS that by (rule y_positions_nth)
  have yp_node: "\<exists>i. yp n = Some i" if "n \<in> set (nodes G)" for n
    using that sS yp_nth by (metis in_set_conv_nth)
  have items: "py_mapM (\<lambda>n. py_bind (node_year G n) (\<lambda>yr.
               case yp n of None \<Rightarrow> Inl KeyError | Some i \<Rightarrow> Inr (n, (yr, i)))) (nodes G)
      = Inr kvs"
    unfolding kvs_def
  proof (rule py_mapM_Inr)
    fix n assume n: "n \<in> set (nodes G)"
    then obtain i where "yp n = Some i" using yp_node by blast
    then show "py_bind (node_year G n) (\<lambda>yr.
        case yp n of None \<Rightarrow> Inl KeyError | Some i \<Rightarrow> Inr (n, (yr, i))) = Inr (n, (yr n, the (yp n)))"
      by (simp add: ny [OF n])
  qed
  have pos: "positions G = Inr (dict_of kvs)"
    by (simp add: positions_def keys nodes_sorted_eq Let_def
        S_def [symmetric] yp_def [symmetric] items)
  have fk: "map fst kvs = nodes G"
    by (simp add: kvs_def comp_def)
  have "fst ` set kvs = set (nodes G)"
    using fk by (metis list.set_map)
  then have "dict_of kvs n \<noteq> None \<longleftrightarrow> n \<in> set (nodes G)" for n
    by (simp add: dict_of_None)
  then have "dom (dict_of kvs) = set (nodes G)"
    unfolding dom_def by blast
  moreover have "dict_of kvs (S ! i) = Some (yr (S ! i), int i)" if "i < length S" for i
  proof -
    have "S ! i \<in> set (nodes G)" using that sS by (metis nth_mem)
    then have "(S ! i, (yr (S ! i), int i)) \<in> set kvs"
      by (auto simp add: kvs_def yp_nth [OF that])
    then show ?thesis
      using dn by (simp add: dict_of_Some fk)
  qed
  ultimately show ?thesis using pos by blast
qed

text \<open>
  Claim C2: for every node of the built graph, the layout gives \<open>x\<close> the year of the
  node, which is the last year that the edge records give to its title, and \<open>y\<close> the
  rank of the node when the nodes are sorted by year, ascending and stably: nodes of
  the same year keep their insertion order.
\<close>

theorem positions_year_and_rank:
  assumes "n \<in> set (nodes (build_graph edges))"
  shows "\<exists>pos y r. positions (build_graph edges) = Inr pos
           \<and> last_seen_year edges n = Some y
           \<and> pos n = Some (y, int r)
           \<and> r = year_rank (\<lambda>m. the (last_seen_year edges m)) (nodes (build_graph edges)) n
           \<and> r < length (nodes (build_graph edges))
           \<and> sort_key (\<lambda>m. the (last_seen_year edges m)) (nodes (build_graph edges)) ! r = n"
proof -
  let ?G = "build_graph edges"
  let ?yr = "\<lambda>m. the (last_seen_year edges m)"
  let ?S = "sort_key ?yr (nodes ?G)"
  let ?r = "index_of ?S n"
  obtain pos where pos: "positions ?G = Inr pos"
    and nth: "\<forall>i < length ?S. pos (?S ! i) = Some (?yr (?S ! i), int i)"
    using positions_build_graph [of edges] by blast
  have d: "distinct (nodes ?G)"
    by (rule distinct_nodes) (rule wf_build_graph)
  from assms have nS: "n \<in> set ?S" by simp
  then have r: "?r < length ?S" and sr: "?S ! ?r = n"
    by (rule index_of_less, rule nth_index_of)
  from assms obtain y where y: "last_seen_year edges n = Some y"
    by (auto simp add: nodes_build_graph)
  from nth r sr have "pos n = Some (?yr n, int ?r)" by metis
  with y have "pos n = Some (y, int ?r)" by simp
  moreover have "?r = year_rank ?yr (nodes ?G) n"
    using d assms by (rule index_of_sort_key)
  ultimately show ?thesis
    using pos y r sr by auto
qed

theorem positions_year_and_rank_witness:
  "''B'' \<in> set (nodes (build_graph
      [(''A'', 1800, ''B'', 1810, 2, [''freedom''], ''''),
       (''C'', 1810, ''B'', 1805, 3, [''freedom'', ''abolition''], ''x'')]))
   \<and> (\<exists>pos. positions (build_graph
      [(''A'', 1800, ''B'', 1810, 2, [''freedom''], ''''),
       (''C'', 1810, ''B'', 1805, 3, [''freedom'', ''abolition''], ''x'')]) = Inr pos
      \<and> pos ''B'' = Some (1805, 1))"
proof -
  let ?es = "[(''A'', 1800, ''B'', 1810, 2, [''freedom''], ''''),
       (''C'', 1810, ''B'', 1805, 3, [''freedom'', ''abolition''], ''x'')] :: edge list"
  have g: "nodes (build_graph ?es) = [''A'', ''B'', ''C'']"
    by (simp add: build_graph_def build_step_def add_edge_def add_node_def ensure_node_def
        has_node_def empty_graph_def nodes_def Let_def)
  have y: "last_seen_year ?es ''A'' = Some 1800" "last_seen_year ?es ''B'' = Some 1805"
    "last_seen_year ?es ''C'' = Some 1810"
    by (simp_all add: last_seen_year_def mentions_def)
  have m: "''B'' \<in> set (nodes (build_graph ?es))"
    by (simp add: g)
  from positions_year_and_rank [OF m] show ?thesis
    by (auto simp add: g y year_rank_def)
qed

section \<open>The process\<close>

lemma load_edges_empty: "load_edges rows = Inr [] \<longleftrightarrow> rows = []"
proof (cases rows)
  case Nil
  then show ?thesis by (simp add: load_edges_def)
next
  case (Cons r rs)
  then show ?thesis
    by (auto simp add: load_edges_def py_bind_def split: sum.splits)
qed

lemma main_assets_dir: "assets_dir (files_after (main repo_root fs)) = assets_dir fs"
  by (simp add: main_def Let_def split: option.split sum.split)

text \<open>
  Claim C6: when \<open>edges.csv\<close> is missing, or is there and no edge record is parsed
  from it, the process ends with status 1 and a message on the standard error, which
  in the first case ends with the path that was tried, and the output file is left as
  it was: not created, not modified.
\<close>

theorem run_script_input_errors:
  "(edges_csv fs = None \<longrightarrow>
      exit_code (run_script repo_root fs) = 1
      \<and> stderr (run_script repo_root fs)
          = [Line (''CSV not found at '' @ path_str (repo_root @ [''edges.csv'']))]
      \<and> interactive_html (files_after (run_script repo_root fs)) = interactive_html fs)
   \<and> (\<forall>rows. edges_csv fs = Some rows \<and> load_edges rows = Inr [] \<longrightarrow>
      exit_code (run_script repo_root fs) = 1
      \<and> stderr (run_script repo_root fs) = [Line ''No edges found in CSV.'']
      \<and> interactive_html (files_after (run_script repo_root fs)) = interactive_html fs)"
  by (simp add: run_script_def main_def module_load_def Let_def)

theorem run_script_input_errors_witness:
  "exit_code (run_script [''srv'', ''repo'']
      \<lparr>assets_dir = True, edges_csv = None, interactive_html = None\<rparr>) = 1
   \<and> stderr (run_script [''srv'', ''repo'']
      \<lparr>assets_dir = True, edges_csv = None, interactive_html = None\<rparr>)
        = [Line ''CSV not found at /srv/repo/edges.csv'']
   \<and> interactive_html (files_after (run_script [''srv'', ''repo'']
      \<lparr>assets_dir = True, edges_csv = None, interactive_html = None\<rparr>)) = None
   \<and> load_edges [] = Inr []
   \<and> exit_code (run_script [''srv'', ''repo'']
      \<lparr>assets_dir = True, edges_csv = Some [], interactive_html = None\<rparr>) = 1
   \<and> stderr (run_script [''srv'', ''repo'']
      \<lparr>assets_dir = True, edges_csv = Some [], interactive_html = None\<rparr>)
        = [Line ''No edges found in CSV.'']
   \<and> interactive_html (files_after (run_script [''srv'', ''repo'']
      \<lparr>assets_dir = True, edges_csv = Some [], interactive_html = None\<rparr>)) = None"
proof -
  have l: "load_edges [] = Inr []"
    by (simp add: load_edges_def)
  have p: "path_str [''srv'', ''repo'', ''edges.csv''] = ''/srv/repo/edges.csv''"
    by (simp add: path_str_def)
  show ?thesis
    using run_script_input_errors
      [of "\<lparr>assets_dir = True, edges_csv = None, interactive_html = None\<rparr>" "[''srv'', ''repo'']"]
      run_script_input_errors
      [of "\<lparr>assets_dir = True, edges_csv = Some [], interactive_html = None\<rparr>" "[''srv'', ''repo'']"]
    by (simp add: l p)
qed

text \<open>
  Claim C10: the directory \<open>assets\<close> is created when the module is loaded, before
  \<open>main\<close> looks at the input, so it exists after every run: also after the run that
  finds no \<open>edges.csv\<close>, ends with status 1 and writes no output file.
\<close>

theorem assets_dir_created_on_load:
  "assets_dir (module_load fs)
   \<and> assets_dir (files_after (run_script repo_root fs))
   \<and> (edges_csv fs = None \<longrightarrow>
        exit_code (run_script repo_root fs) = 1
        \<and> interactive_html (files_after (run_script repo_root fs)) = interactive_html fs
        \<and> assets_dir (files_after (run_script repo_root fs)))"
  by (simp add: run_script_def main_assets_dir) (simp add: main_def module_load_def Let_def)

theorem assets_dir_created_on_load_witness:
  "\<not> assets_dir \<lparr>assets_dir = False, edges_csv = None, interactive_html = None\<rparr>
   \<and> exit_code (run_script [''srv'', ''repo'']
        \<lparr>assets_dir = False, edges_csv = None, interactive_html = None\<rparr>) = 1
   \<and> interactive_html (files_after (run_script [''srv'', ''repo'']
        \<lparr>assets_dir = False, edges_csv = None, interactive_html = None\<rparr>)) = None
   \<and> assets_dir (files_after (run_script [''srv'', ''repo'']
        \<lparr>assets_dir = False, edges_csv = None, interactive_html = None\<rparr>))"
  using assets_dir_created_on_load
    [of "\<lparr>assets_dir = False, edges_csv = None, interactive_html = None\<rparr>" "[''srv'', ''repo'']"]
  by simp

section \<open>Edge traces\<close>

lemma edge_loop_result:
  assumes "\<And>u v d. (u, v, d) \<in> set es \<Longrightarrow> accepts ff wt (u, v, d) \<Longrightarrow>
      pos u \<noteq> None \<and> pos v \<noteq> None"
  shows "edge_loop pos ff wt es (x, y, texts) =
     Inr (x @ concat (map (\<lambda>(u, v, d). [Some (fst (the (pos u))), Some (fst (the (pos v))), None])
               (filter (accepts ff wt) es)),
          y @ concat (map (\<lambda>(u, v, d). [Some (snd (the (pos u))), Some (snd (the (pos v))), None])
               (filter (accepts ff wt) es)),
          texts @ map (\<lambda>(u, v, d). hover_block u v d) (filter (accepts ff wt) es))"
  using assms
proof (induction es arbitrary: x y texts)
  case Nil
  then show ?case by simp
next
  case (Cons e es)
  obtain u v d where e: "e = (u, v, d)" by (cases e) auto
  have IH: "edge_loop pos ff wt es (x', y', t') =
     Inr (x' @ concat (map (\<lambda>(u, v, d). [Some (fst (the (pos u))), Some (fst (the (pos v))), None])
               (filter (accepts ff wt) es)),
          y' @ concat (map (\<lambda>(u, v, d). [Some (snd (the (pos u))), Some (snd (the (pos v))), None])
               (filter (accepts ff wt) es)),
          t' @ map (\<lambda>(u, v, d). hover_block u v d) (filter (accepts ff wt) es))" for x' y' t'
    by (rule Cons.IH) (rule Cons.prems, simp_all)
  show ?case
  proof (cases "accepts ff wt (u, v, d)")
    case False
    then have "\<not> ff u v d \<or> (case wt of None \<Rightarrow> False | Some k \<Rightarrow> weight d \<noteq> k)"
      by (auto simp add: accepts_def split: option.splits)
    with False show ?thesis
      by (auto simp add: e IH)
  next
    case True
    with Cons.prems [of u v d] obtain pu pv where p: "pos u = Some pu" "pos v = Some pv"
      by (auto simp add: e)
    from True have c: "ff u v d" "\<not> (case wt of None \<Rightarrow> False | Some k \<Rightarrow> weight d \<noteq> k)"
      by (auto simp add: accepts_def split: option.splits)
    obtain x0 y0 x1 y1 where q: "pu = (x0, y0)" "pv = (x1, y1)"
      by (cases pu, cases pv) auto
    show ?thesis
      using True c by (simp add: e p q IH)
  qed
qed

lemma make_edge_trace_no_accept:
  assumes "filter (accepts ff wt) (edges_view G) = []"
  shows "make_edge_trace G pos ff wt suffix = Inr (placeholder_trace suffix)"
proof -
  have "edge_loop pos ff wt (edges_view G) ([], [], []) = Inr ([], [], [])"
    using assms edge_loop_result [of "edges_view G" ff wt pos "[]" "[]" "[]"]
    by (simp add: filter_empty_conv)
  then show ?thesis
    by (simp add: make_edge_trace_def)
qed

lemma edges_from_mem:
  "(u, v, d) \<in> set (edges_from seen al) \<Longrightarrow> \<exists>nbrs. (u, nbrs) \<in> set al \<and> (v, d) \<in> set nbrs"
  by (induction seen al rule: edges_from.induct) auto

lemma edges_view_nodes:
  assumes "wf_graph G" "(u, v, d) \<in> set (edges_view G)"
  shows "u \<in> set (nodes G) \<and> v \<in> set (nodes G)"
proof -
  from assms(2) obtain nbrs where n: "(u, nbrs) \<in> set (adj_dict G)" "(v, d) \<in> set nbrs"
    unfolding edges_view_def using edges_from_mem by blast
  from n(1) have "u \<in> set (map fst (adj_dict G))" by force
  with assms(1) have u: "u \<in> set (nodes G)"
    by (simp add: wf_graph_def nodes_def)
  from assms(1) n(1) have "set (map fst nbrs) \<subseteq> set (map fst (node_dict G))"
    unfolding wf_graph_def by force
  moreover from n(2) have "v \<in> set (map fst nbrs)" by force
  ultimately have "v \<in> set (nodes G)"
    by (auto simp add: nodes_def)
  with u show ?thesis ..
qed

lemma make_edge_trace_total:
  assumes "wf_graph G" "set (nodes G) \<subseteq> dom pos"
  shows "\<exists>tr. make_edge_trace G pos ff wt suffix = Inr tr"
proof -
  have "pos u \<noteq> None \<and> pos v \<noteq> None" if "(u, v, d) \<in> set (edges_view G)" for u v d
    using edges_view_nodes [OF assms(1) that] assms(2) by blast
  then have "\<exists>r. edge_loop pos ff wt (edges_view G) ([], [], []) = Inr r"
    using edge_loop_result [of "edges_view G" ff wt pos "[]" "[]" "[]"] by blast
  then obtain x y texts where "edge_loop pos ff wt (edges_view G) ([], [], []) = Inr (x, y, texts)"
    by (metis prod_cases3)
  then show ?thesis
    by (simp add: make_edge_trace_def)
qed

lemma make_node_trace_total:
  assumes "set (nodes G) \<subseteq> dom pos" "\<And>n. n \<in> set (nodes G) \<Longrightarrow> \<exists>y. node_year G n = Inr y"
  shows "\<exists>tr. make_node_trace G pos = Inr tr"
proof -
  have p: "pos_item pos n = Inr (the (pos n))" if "n \<in> set (nodes G)" for n
    using that assms(1) by (auto simp add: pos_item_def)
  have 1: "py_mapM (\<lambda>n. py_bind (pos_item pos n) (\<lambda>p. Inr (Some (fst p)))) (nodes G)
      = Inr (map (\<lambda>n. Some (fst (the (pos n)))) (nodes G))"
    by (rule py_mapM_Inr) (simp add: p)
  have 2: "py_mapM (\<lambda>n. py_bind (pos_item pos n) (\<lambda>p. Inr (Some (snd p)))) (nodes G)
      = Inr (map (\<lambda>n. Some (snd (the (pos n)))) (nodes G))"
    by (rule py_mapM_Inr) (simp add: p)
  have 3: "py_mapM (\<lambda>n. py_bind (node_year G n) (\<lambda>yr. Inr (node_label n yr))) (nodes G)
      = Inr (map (\<lambda>n. node_label n (projr (node_year G n))) (nodes G))"
  proof (rule py_mapM_Inr)
    fix n assume "n \<in> set (nodes G)"
    then obtain y where "node_year G n = Inr y" using assms(2) by blast
    then show "py_bind (node_year G n) (\<lambda>yr. Inr (node_label n yr))
        = Inr (node_label n (projr (node_year G n)))"
      by simp
  qed
  show ?thesis
    by (simp add: make_node_trace_def 1 2 3)
qed

section \<open>The trace list\<close>

lemma theme_loop_result:
  assumes "\<And>th w. th \<in> set ths \<Longrightarrow>
      \<exists>tr. make_edge_trace G pos (theme_filter th) (Some w) (''_'' @ th @ sfx w) = Inr tr"
    and "sfx 2 = ''_w2''" "sfx 3 = ''_w3''"
  shows "\<exists>tts trs. theme_loop G pos ths (tt0, tr0) = Inr (tt0 @ tts, tr0 @ trs)
      \<and> map fst tts = ths
      \<and> map Inr trs = concat (map (\<lambda>th.
         [make_edge_trace G pos (theme_filter th) (Some 2) (''_'' @ th @ ''_w2''),
          make_edge_trace G pos (theme_filter th) (Some 3) (''_'' @ th @ ''_w3'')]) ths)"
  using assms(1)
proof (induction ths arbitrary: tt0 tr0)
  case Nil
  then show ?case by simp
next
  case (Cons th ths)
  from Cons.prems [of th 2] assms(2) obtain t2
    where t2: "make_edge_trace G pos (theme_filter th) (Some 2) (''_'' @ th @ ''_w2'') = Inr t2"
    by auto
  from Cons.prems [of th 3] assms(3) obtain t3
    where t3: "make_edge_trace G pos (theme_filter th) (Some 3) (''_'' @ th @ ''_w3'') = Inr t3"
    by auto
  have "\<exists>tts trs. theme_loop G pos ths (tt0 @ [(th, t2, t3)], tr0 @ [t2, t3])
        = Inr ((tt0 @ [(th, t2, t3)]) @ tts, (tr0 @ [t2, t3]) @ trs)
      \<and> map fst tts = ths
      \<and> map Inr trs = concat (map (\<lambda>th.
         [make_edge_trace G pos (theme_filter th) (Some 2) (''_'' @ th @ ''_w2''),
          make_edge_trace G pos (theme_filter th) (Some 3) (''_'' @ th @ ''_w3'')]) ths)"
    by (rule Cons.IH) (rule Cons.prems, simp)
  then obtain tts trs where r: "theme_loop G pos ths (tt0 @ [(th, t2, t3)], tr0 @ [t2, t3])
        = Inr ((tt0 @ [(th, t2, t3)]) @ tts, (tr0 @ [t2, t3]) @ trs)"
      "map fst tts = ths"
      "map Inr trs = concat (map (\<lambda>th.
         [make_edge_trace G pos (theme_filter th) (Some 2) (''_'' @ th @ ''_w2''),
          make_edge_trace G pos (theme_filter th) (Some 3) (''_'' @ th @ ''_w3'')]) ths)"
    by blast
  have A: "theme_loop G pos (th # ths) (tt0, tr0) = Inr (tt0 @ ((th, t2, t3) # tts), tr0 @ (t2 # t3 # trs))"
    using t2 t3 r(1) by simp
  have B: "map fst ((th, t2, t3) # tts) = th # ths"
    by (simp add: r(2))
  have C: "map Inr (t2 # t3 # trs) = concat (map (\<lambda>th.
         [make_edge_trace G pos (theme_filter th) (Some 2) (''_'' @ th @ ''_w2''),
          make_edge_trace G pos (theme_filter th) (Some 3) (''_'' @ th @ ''_w3'')]) (th # ths))"
    using t2 t3 r(3) by simp
  show ?case
    by (rule exI [of _ "(th, t2, t3) # tts"], rule exI [of _ "t2 # t3 # trs"])
      (intro conjI A B C)
qed

lemma build_traces_result:
  assumes "wf_graph G" "set (nodes G) \<subseteq> dom pos"
    "\<And>n. n \<in> set (nodes G) \<Longrightarrow> \<exists>y. node_year G n = Inr y"
  shows "\<exists>tts trs. build_traces G pos ths = Inr (tts, trs)
      \<and> map fst tts = ths \<and> map Inr trs = trace_calls G pos ths"
proof -
  obtain a2 where a2: "make_edge_trace G pos (\<lambda>u v d. True) (Some 2) ''_all_w2'' = Inr a2"
    using make_edge_trace_total [OF assms(1,2)] by blast
  obtain a3 where a3: "make_edge_trace G pos (\<lambda>u v d. True) (Some 3) ''_all_w3'' = Inr a3"
    using make_edge_trace_total [OF assms(1,2)] by blast
  obtain nt where nt: "make_node_trace G pos = Inr nt"
    using make_node_trace_total [OF assms(2,3)] by blast
  have "\<exists>tts trs. theme_loop G pos ths ([], [a2, a3]) = Inr ([] @ tts, [a2, a3] @ trs)
      \<and> map fst tts = ths
      \<and> map Inr trs = concat (map (\<lambda>th.
         [make_edge_trace G pos (theme_filter th) (Some 2) (''_'' @ th @ ''_w2''),
          make_edge_trace G pos (theme_filter th) (Some 3) (''_'' @ th @ ''_w3'')]) ths)"
    by (rule theme_loop_result [where sfx = "\<lambda>w. if w = 2 then ''_w2'' else ''_w3''"])
      (simp_all add: make_edge_trace_total [OF assms(1,2)])
  then obtain tts trs where r: "theme_loop G pos ths ([], [a2, a3]) = Inr (tts, a2 # a3 # trs)"
      "map fst tts = ths"
      "map Inr trs = concat (map (\<lambda>th.
         [make_edge_trace G pos (theme_filter th) (Some 2) (''_'' @ th @ ''_w2''),
          make_edge_trace G pos (theme_filter th) (Some 3) (''_'' @ th @ ''_w3'')]) ths)"
    by auto
  have A: "build_traces G pos ths = Inr (tts, (a2 # a3 # trs) @ [nt])"
    using a2 a3 r(1) nt by (simp add: build_traces_def)
  have B: "map Inr ((a2 # a3 # trs) @ [nt]) = trace_calls G pos ths"
    using a2 a3 nt r(3) by (simp add: trace_calls_def)
  show ?thesis
    by (rule exI [of _ tts], rule exI [of _ "(a2 # a3 # trs) @ [nt]"])
      (intro conjI A B r(2))
qed

section \<open>Visibility vectors\<close>

lemma length_vis_at [simp]: "length (vis_at n js) = n"
  by (simp add: vis_at_def)

lemma nth_vis_at: "j < n \<Longrightarrow> vis_at n js ! j \<longleftrightarrow> j \<in> set js"
  by (simp add: vis_at_def)

lemma replicate_vis_at: "replicate n False = vis_at n []"
  by (rule nth_equalityI) (simp_all add: nth_vis_at)

lemma update_vis_at: "k < n \<Longrightarrow> (vis_at n js)[k := True] = vis_at n (k # js)"
  by (rule nth_equalityI) (auto simp add: nth_vis_at nth_list_update)

lemma vis_at_cong: "set js = set ks \<Longrightarrow> vis_at n js = vis_at n ks"
  by (simp add: vis_at_def)

lemma py_setitem_vis_at:
  "k < n \<Longrightarrow> py_setitem (vis_at n js) (int k) True = Inr (vis_at n (k # js))"
  by (simp add: py_setitem_def update_vis_at)

lemma vis_all_result:
  assumes "3 \<le> n"
  shows "vis_all n (int n - 1) = Inr (vis_at n [0, 1, n - 1])"
proof -
  have i: "int n - 1 = int (n - 1)" using assms by simp
  have "vis_all n (int n - 1) = Inr (vis_at n [n - 1, 1, 0])"
    unfolding vis_all_def replicate_vis_at i
    using assms py_setitem_vis_at [of 0 n "[]"] py_setitem_vis_at [of 1 n "[0]"]
      py_setitem_vis_at [of "n - 1" n "[1, 0]"]
    by simp
  moreover have "vis_at n [n - 1, 1, 0] = vis_at n [0, 1, n - 1]"
    by (rule vis_at_cong) auto
  ultimately show ?thesis by simp
qed

lemma py_index_eq: "a \<in> set xs \<Longrightarrow> py_index xs a = Inr (index_of xs a)"
  by (induction xs) (auto simp add: index_of_Cons)

lemma index_of_nth: "distinct xs \<Longrightarrow> i < length xs \<Longrightarrow> index_of xs (xs ! i) = i"
proof (induction xs arbitrary: i)
  case Nil
  then show ?case by simp
next
  case (Cons a xs)
  then show ?case
    by (cases i) (auto simp add: index_of_Cons)
qed

lemma vis_for_theme_result:
  assumes "th \<in> set (map fst tts)" "n = 2 * length tts + 3"
  shows "vis_for_theme tts n (int n - 1) th =
     Inr (vis_at n [2 + 2 * index_of (map fst tts) th, 2 + 2 * index_of (map fst tts) th + 1, n - 1])"
proof -
  let ?i = "index_of (map fst tts) th"
  have lt: "?i < length tts"
    using index_of_less [OF assms(1)] by simp
  have i: "int n - 1 = int (n - 1)" using assms(2) by simp
  have b: "2 + int ?i * 2 = int (2 + 2 * ?i)" "int (2 + 2 * ?i) + 1 = int (2 + 2 * ?i + 1)"
    by simp_all
  have k: "2 + 2 * ?i < n" "2 + 2 * ?i + 1 < n" "n - 1 < n"
    using lt assms(2) by simp_all
  have "vis_for_theme tts n (int n - 1) th =
     Inr (vis_at n [n - 1, 2 + 2 * ?i + 1, 2 + 2 * ?i])"
    unfolding vis_for_theme_def Let_def replicate_vis_at i py_index_eq [OF assms(1)] py_bind_Inr b
    by (simp only: py_setitem_vis_at [OF k(1)] py_setitem_vis_at [OF k(2)]
        py_setitem_vis_at [OF k(3)] py_bind_Inr)
  moreover have "vis_at n [n - 1, 2 + 2 * ?i + 1, 2 + 2 * ?i] = vis_at n [2 + 2 * ?i, 2 + 2 * ?i + 1, n - 1]"
    by (rule vis_at_cong) auto
  ultimately show ?thesis by simp
qed

lemma build_buttons_result:
  assumes "n = 2 * length tts + 3" "distinct (map fst tts)"
  shows "\<exists>bs. build_buttons tts n = Inr ((''All themes'', vis_at n [0, 1, n - 1]) # bs)
      \<and> length bs = length tts
      \<and> (\<forall>i < length tts. bs ! i = (fst (tts ! i), vis_at n [2 + 2 * i, 2 + 2 * i + 1, n - 1]))"
proof -
  let ?g = "\<lambda>(theme, tr_w2, tr_w3). (theme :: string,
      vis_at n [2 + 2 * index_of (map fst tts) theme, 2 + 2 * index_of (map fst tts) theme + 1, n - 1])"
  have va: "vis_all n (int n - 1) = Inr (vis_at n [0, 1, n - 1])"
    by (rule vis_all_result) (simp add: assms(1))
  have m: "py_mapM (\<lambda>(theme, tr_w2, tr_w3).
        py_bind (vis_for_theme tts n (int n - 1) theme) (\<lambda>vt. Inr (theme, vt))) tts
      = Inr (map ?g tts)"
  proof (rule py_mapM_Inr)
    fix a assume a: "a \<in> set tts"
    obtain th t2 t3 where e: "a = (th, t2, t3)" by (cases a) auto
    with a have "th \<in> set (map fst tts)" by force
    from vis_for_theme_result [OF this assms(1)]
    show "(case a of (theme, tr_w2, tr_w3) \<Rightarrow>
        py_bind (vis_for_theme tts n (int n - 1) theme) (\<lambda>vt. Inr (theme, vt))) = Inr (?g a)"
      by (simp add: e)
  qed
  have A: "build_buttons tts n = Inr ((''All themes'', vis_at n [0, 1, n - 1]) # map ?g tts)"
    by (simp add: build_buttons_def Let_def va m)
  have C: "\<forall>i < length tts. map ?g tts ! i
      = (fst (tts ! i), vis_at n [2 + 2 * i, 2 + 2 * i + 1, n - 1])"
  proof (intro allI impI)
    fix i assume i: "i < length tts"
    have "index_of (map fst tts) (fst (tts ! i)) = i"
      using index_of_nth [OF assms(2), of i] i by simp
    then show "map ?g tts ! i = (fst (tts ! i), vis_at n [2 + 2 * i, 2 + 2 * i + 1, n - 1])"
      using i by (simp add: case_prod_beta)
  qed
  show ?thesis
    by (rule exI [of _ "map ?g tts"]) (intro conjI A C, simp)
qed

section \<open>The figure\<close>

lemma all_themes_eq: "all_themes edges = sorted_list_of_set (theme_set edges)"
  by (simp add: all_themes_def theme_set_def)

lemma finite_theme_set: "finite (theme_set edges)"
  by (simp add: theme_set_def)

lemma length_all_themes: "length (all_themes edges) = card (theme_set edges)"
  by (simp add: all_themes_eq)

lemma distinct_all_themes: "distinct (all_themes edges)"
  by (simp add: all_themes_eq)

lemma length_pairs: "length (concat (map (\<lambda>th. [a th, b th]) ths)) = 2 * length ths"
  by (induction ths) simp_all

lemma length_trace_calls: "length (trace_calls G pos ths) = 2 * length ths + 3"
  by (simp add: trace_calls_def length_pairs)

lemma nth_pairs:
  "i < length ths \<Longrightarrow>
     concat (map (\<lambda>th. [a th, b th]) ths) ! (2 * i) = a (ths ! i)
     \<and> concat (map (\<lambda>th. [a th, b th]) ths) ! (2 * i + 1) = b (ths ! i)"
proof (induction ths arbitrary: i)
  case Nil
  then show ?case by simp
next
  case (Cons th ths)
  then show ?case by (cases i) simp_all
qed

lemma nth_trace_calls:
  assumes "i < length ths"
  shows "trace_calls G pos ths ! (2 + 2 * i)
       = make_edge_trace G pos (theme_filter (ths ! i)) (Some 2) (''_'' @ ths ! i @ ''_w2'')"
    and "trace_calls G pos ths ! (2 + 2 * i + 1)
       = make_edge_trace G pos (theme_filter (ths ! i)) (Some 3) (''_'' @ ths ! i @ ''_w3'')"
proof -
  let ?ps = "concat (map (\<lambda>th.
         [make_edge_trace G pos (theme_filter th) (Some 2) (''_'' @ th @ ''_w2''),
          make_edge_trace G pos (theme_filter th) (Some 3) (''_'' @ th @ ''_w3'')]) ths)"
  have l: "2 * i < length ?ps" "2 * i + 1 < length ?ps"
    using assms by (simp_all add: length_pairs)
  have c: "trace_calls G pos ths ! (2 + k) = (?ps @ [make_node_trace G pos]) ! k" for k
    by (simp add: trace_calls_def)
  note np = nth_pairs [OF assms,
      where a = "\<lambda>th. make_edge_trace G pos (theme_filter th) (Some 2) (''_'' @ th @ ''_w2'')"
        and b = "\<lambda>th. make_edge_trace G pos (theme_filter th) (Some 3) (''_'' @ th @ ''_w3'')"]
  show "trace_calls G pos ths ! (2 + 2 * i)
       = make_edge_trace G pos (theme_filter (ths ! i)) (Some 2) (''_'' @ ths ! i @ ''_w2'')"
    using c [of "2 * i"] l(1) np
    by (simp only: nth_append if_True)
  have "trace_calls G pos ths ! (2 + (2 * i + 1))
       = make_edge_trace G pos (theme_filter (ths ! i)) (Some 3) (''_'' @ ths ! i @ ''_w3'')"
    using c [of "2 * i + 1"] l(2) np
    by (simp only: nth_append if_True)
  then show "trace_calls G pos ths ! (2 + 2 * i + 1)
       = make_edge_trace G pos (theme_filter (ths ! i)) (Some 3) (''_'' @ ths ! i @ ''_w3'')"
    by (simp only: add.assoc)
qed

lemma last_trace_calls:
  "trace_calls G pos ths ! (2 * length ths + 2) = make_node_trace G pos"
proof -
  have "trace_calls G pos ths ! (length (trace_calls G pos ths) - 1) = last (trace_calls G pos ths)"
    by (rule last_conv_nth [symmetric]) (simp add: trace_calls_def)
  then show ?thesis
    by (simp add: length_trace_calls) (simp add: trace_calls_def)
qed

lemma build_figure_result:
  "\<exists>fig pos. build_figure edges = Inr fig
     \<and> positions (build_graph edges) = Inr pos
     \<and> map Inr (fig_data fig) = trace_calls (build_graph edges) pos (all_themes edges)
     \<and> length (buttons fig) = Suc (length (all_themes edges))
     \<and> buttons fig ! 0
         = (''All themes'', vis_at (length (fig_data fig)) [0, 1, length (fig_data fig) - 1])
     \<and> (\<forall>i < length (all_themes edges). buttons fig ! Suc i
         = (all_themes edges ! i,
            vis_at (length (fig_data fig)) [2 + 2 * i, 2 + 2 * i + 1, length (fig_data fig) - 1]))"
proof -
  let ?G = "build_graph edges"
  let ?ths = "all_themes edges"
  obtain pos where pos: "positions ?G = Inr pos" and dom: "dom pos = set (nodes ?G)"
    using positions_build_graph [of edges] by blast
  have wf: "wf_graph ?G" by (rule wf_build_graph)
  have ny: "\<exists>y. node_year ?G n = Inr y" if "n \<in> set (nodes ?G)" for n
    using that by (auto simp add: node_year_build_graph nodes_build_graph)
  obtain tts trs where bt: "build_traces ?G pos ?ths = Inr (tts, trs)"
    and tt: "map fst tts = ?ths" and tr: "map Inr trs = trace_calls ?G pos ?ths"
    using build_traces_result [of ?G pos ?ths] wf dom ny by blast
  have ltt: "length tts = length ?ths"
    using tt by (metis length_map)
  have "length trs = length (trace_calls ?G pos ?ths)"
    using tr by (metis length_map)
  then have n: "length trs = 2 * length tts + 3"
    by (simp add: length_trace_calls ltt)
  have d: "distinct (map fst tts)"
    by (simp add: tt distinct_all_themes)
  obtain bs where bb: "build_buttons tts (length trs)
        = Inr ((''All themes'', vis_at (length trs) [0, 1, length trs - 1]) # bs)"
    and lb: "length bs = length tts"
    and nb: "\<forall>i < length tts. bs ! i
        = (fst (tts ! i), vis_at (length trs) [2 + 2 * i, 2 + 2 * i + 1, length trs - 1])"
    using build_buttons_result [OF n d] by blast
  let ?fig = "\<lparr>fig_data = trs,
      buttons = (''All themes'', vis_at (length trs) [0, 1, length trs - 1]) # bs\<rparr>"
  have A: "build_figure edges = Inr ?fig"
    by (simp add: build_figure_def Let_def pos bt bb)
  have B: "\<forall>i < length ?ths. buttons ?fig ! Suc i
         = (?ths ! i, vis_at (length (fig_data ?fig))
              [2 + 2 * i, 2 + 2 * i + 1, length (fig_data ?fig) - 1])"
  proof (intro allI impI)
    fix i assume i: "i < length ?ths"
    then have "fst (tts ! i) = ?ths ! i"
      using tt ltt by (metis nth_map)
    with nb i ltt show "buttons ?fig ! Suc i
         = (?ths ! i, vis_at (length (fig_data ?fig))
              [2 + 2 * i, 2 + 2 * i + 1, length (fig_data ?fig) - 1])"
      by simp
  qed
  show ?thesis
    by (rule exI [of _ ?fig], rule exI [of _ pos])
      (intro conjI A pos B, simp_all add: tr lb ltt)
qed

lemma run_script_success:
  assumes "edges_csv fs = Some rows" "load_edges rows = Inr edges" "edges \<noteq> []"
    "build_figure edges = Inr fig"
  shows "run_script repo_root fs =
     \<lparr>exit_code = 0, stderr = [],
      stdout = [Line (''Wrote '' @ path_str (repo_root @ [''assets'', ''interactive.html'']))],
      files_after = (module_load fs)\<lparr>interactive_html := Some fig\<rparr>\<rparr>"
  using assms by (simp add: run_script_def main_def module_load_def Let_def)

section \<open>Examples\<close>

lemma load_example_rows: "load_edges example_rows = Inr example_edges"
  by code_simp

lemma load_plain_rows: "load_edges plain_rows = Inr plain_edges"
  by code_simp

lemma all_themes_example: "all_themes example_edges = [''abolition'', ''freedom'']"
  by code_simp

lemma all_themes_plain: "all_themes plain_edges = []"
  by code_simp

section \<open>The trace list and the menu\<close>

lemma html_of_valid_input:
  assumes "edges_csv fs = Some rows" "load_edges rows = Inr edges" "edges \<noteq> []"
    "build_figure edges = Inr fig"
  shows "interactive_html (files_after (run_script repo_root fs)) = Some fig"
  by (simp add: run_script_success [OF assms])

text \<open>
  Claim C1: for every CSV input that parses to a non-empty list of edge records, the
  list of traces has length 2 + 2 * (number of distinct themes of the records) + 1, and
  holds, in this order, the two aggregate traces (weight 2, then weight 3), for every
  distinct theme in ascending order its weight-2 and weight-3 trace, and the node trace.
\<close>

theorem traces_count_and_order:
  assumes "edges_csv fs = Some rows" "load_edges rows = Inr edges" "edges \<noteq> []"
  shows "\<exists>fig pos. interactive_html (files_after (run_script repo_root fs)) = Some fig
     \<and> positions (build_graph edges) = Inr pos
     \<and> length (fig_data fig) = 2 + 2 * card (theme_set edges) + 1
     \<and> map Inr (fig_data fig)
         = trace_calls (build_graph edges) pos (sorted_list_of_set (theme_set edges))"
proof -
  obtain fig pos where f: "build_figure edges = Inr fig"
    and p: "positions (build_graph edges) = Inr pos"
    and t: "map Inr (fig_data fig) = trace_calls (build_graph edges) pos (all_themes edges)"
    using build_figure_result [of edges] by blast
  have "length (fig_data fig) = length (trace_calls (build_graph edges) pos (all_themes edges))"
    using t by (metis length_map)
  then have l: "length (fig_data fig) = 2 + 2 * card (theme_set edges) + 1"
    by (simp add: length_trace_calls length_all_themes)
  have h: "interactive_html (files_after (run_script repo_root fs)) = Some fig"
    by (rule html_of_valid_input [OF assms f])
  show ?thesis
    by (rule exI [of _ fig], rule exI [of _ pos])
      (intro conjI h p l, simp add: t all_themes_eq)
qed

theorem traces_count_and_order_witness:
  "edges_csv example_files = Some example_rows
   \<and> load_edges example_rows = Inr example_edges
   \<and> example_edges \<noteq> []
   \<and> (\<exists>fig. interactive_html (files_after (run_script [''repo''] example_files)) = Some fig
        \<and> length (fig_data fig) = 7)"
proof -
  have a: "edges_csv example_files = Some example_rows"
    by (simp add: example_files_def)
  have b: "example_edges \<noteq> []"
    by (simp add: example_edges_def)
  have c: "card (theme_set example_edges) = 2"
    by (simp add: length_all_themes [symmetric] all_themes_example)
  show ?thesis
    using traces_count_and_order [OF a load_example_rows b, of "[''repo'']"]
    by (auto simp add: a b c load_example_rows)
qed

lemma count_vis_at:
  assumes "distinct js" "\<forall>j \<in> set js. j < n"
  shows "length (filter (\<lambda>b. b) (vis_at n js)) = length js"
proof -
  have "{i. i < length (vis_at n js) \<and> vis_at n js ! i} = set js"
    using assms(2) by (auto simp add: nth_vis_at)
  then have "length (filter (\<lambda>b. b) (vis_at n js)) = card (set js)"
    by (simp add: length_filter_conv_card)
  with assms(1) show ?thesis
    by (simp add: distinct_card)
qed

text \<open>
  Claim C4: for every valid input, with or without themes, the visibility vector of the
  option "All themes" is as long as the trace list and has exactly 3 true entries: at
  index 0, at index 1 and at the last index, that of the node trace.
\<close>

theorem all_themes_visibility:
  assumes "edges_csv fs = Some rows" "load_edges rows = Inr edges" "edges \<noteq> []"
  shows "\<exists>fig va. interactive_html (files_after (run_script repo_root fs)) = Some fig
     \<and> buttons fig ! 0 = (''All themes'', va)
     \<and> length va = length (fig_data fig)
     \<and> length (fig_data fig) = 2 + 2 * card (theme_set edges) + 1
     \<and> (\<forall>j < length va. va ! j \<longleftrightarrow> j = 0 \<or> j = 1 \<or> j = length va - 1)
     \<and> length (filter (\<lambda>b. b) va) = 3"
proof -
  obtain fig pos where f: "build_figure edges = Inr fig"
    and t: "map Inr (fig_data fig) = trace_calls (build_graph edges) pos (all_themes edges)"
    and b: "buttons fig ! 0
         = (''All themes'', vis_at (length (fig_data fig)) [0, 1, length (fig_data fig) - 1])"
    using build_figure_result [of edges] by blast
  let ?n = "length (fig_data fig)"
  let ?va = "vis_at ?n [0, 1, ?n - 1]"
  have "?n = length (trace_calls (build_graph edges) pos (all_themes edges))"
    using t by (metis length_map)
  then have l: "?n = 2 + 2 * card (theme_set edges) + 1"
    by (simp add: length_trace_calls length_all_themes)
  have h: "interactive_html (files_after (run_script repo_root fs)) = Some fig"
    by (rule html_of_valid_input [OF assms f])
  have v: "\<forall>j < length ?va. ?va ! j \<longleftrightarrow> j = 0 \<or> j = 1 \<or> j = length ?va - 1"
    by (auto simp add: nth_vis_at)
  have c: "length (filter (\<lambda>b. b) ?va) = 3"
    using l count_vis_at [of "[0, 1, ?n - 1]" ?n] by simp
  show ?thesis
    by (rule exI [of _ fig], rule exI [of _ ?va]) (intro conjI h b l v c, simp)
qed

theorem all_themes_visibility_witness:
  "edges_csv plain_files = Some plain_rows
   \<and> load_edges plain_rows = Inr plain_edges
   \<and> plain_edges \<noteq> []
   \<and> theme_set plain_edges = {}
   \<and> (\<exists>fig. interactive_html (files_after (run_script [''repo''] plain_files)) = Some fig
        \<and> length (fig_data fig) = 3
        \<and> buttons fig ! 0 = (''All themes'', [True, True, True]))"
proof -
  have a: "edges_csv plain_files = Some plain_rows"
    by (simp add: plain_files_def)
  have b: "plain_edges \<noteq> []"
    by (simp add: plain_edges_def)
  have c: "theme_set plain_edges = {}"
    by (simp add: theme_set_def plain_edges_def edge_themes_def)
  have d: "va = [True, True, True]"
    if "length va = 3" "\<forall>j < length va. va ! j \<longleftrightarrow> j = 0 \<or> j = 1 \<or> j = length va - 1"
    for va :: "bool list"
  proof (rule nth_equalityI)
    show "length va = length [True, True, True]" using that(1) by simp
  next
    fix i assume "i < length va"
    with that have "i < 3" "va ! i" by auto
    then show "va ! i = [True, True, True] ! i"
      by (auto simp add: less_Suc_eq numeral_3_eq_3 nth_Cons')
  qed
  from all_themes_visibility [OF a load_plain_rows b, of "[''repo'']"]
  obtain fig va where
    "interactive_html (files_after (run_script [''repo''] plain_files)) = Some fig"
    "buttons fig ! 0 = (''All themes'', va)" "length va = length (fig_data fig)"
    "length (fig_data fig) = 3"
    "\<forall>j < length va. va ! j \<longleftrightarrow> j = 0 \<or> j = 1 \<or> j = length va - 1"
    by (auto simp add: c)
  with d [of va] a b c load_plain_rows show ?thesis by auto
qed

text \<open>
  Claim C5: the themes of the input, distinct and sorted ascending, each have one option
  of the menu after "All themes". The option of the theme with sorted index \<open>i\<close> has a
  visibility vector as long as the trace list, true exactly at \<open>2 + 2 * i\<close>, where the
  trace list holds the weight-2 trace of that theme, at \<open>2 + 2 * i + 1\<close>, where it holds
  the weight-3 trace of that theme, and at the last index, where it holds the node trace.
\<close>

theorem theme_visibility:
  assumes "edges_csv fs = Some rows" "load_edges rows = Inr edges" "edges \<noteq> []"
    and "i < card (theme_set edges)"
    and "th = sorted_list_of_set (theme_set edges) ! i"
  shows "\<exists>fig pos vt. interactive_html (files_after (run_script repo_root fs)) = Some fig
     \<and> positions (build_graph edges) = Inr pos
     \<and> length (buttons fig) = Suc (card (theme_set edges))
     \<and> buttons fig ! Suc i = (th, vt)
     \<and> length vt = length (fig_data fig)
     \<and> length (fig_data fig) = 2 + 2 * card (theme_set edges) + 1
     \<and> (\<forall>j < length vt. vt ! j \<longleftrightarrow> j = 2 + 2 * i \<or> j = 2 + 2 * i + 1 \<or> j = length vt - 1)
     \<and> Inr (fig_data fig ! (2 + 2 * i))
         = make_edge_trace (build_graph edges) pos (theme_filter th) (Some 2) (''_'' @ th @ ''_w2'')
     \<and> Inr (fig_data fig ! (2 + 2 * i + 1))
         = make_edge_trace (build_graph edges) pos (theme_filter th) (Some 3) (''_'' @ th @ ''_w3'')
     \<and> Inr (fig_data fig ! (length vt - 1)) = make_node_trace (build_graph edges) pos"
proof -
  let ?G = "build_graph edges"
  let ?ths = "all_themes edges"
  obtain fig pos where f: "build_figure edges = Inr fig"
    and p: "positions ?G = Inr pos"
    and t: "map Inr (fig_data fig) = trace_calls ?G pos ?ths"
    and lb: "length (buttons fig) = Suc (length ?ths)"
    and b: "\<forall>i < length ?ths. buttons fig ! Suc i
         = (?ths ! i,
            vis_at (length (fig_data fig)) [2 + 2 * i, 2 + 2 * i + 1, length (fig_data fig) - 1])"
    using build_figure_result [of edges] by blast
  let ?n = "length (fig_data fig)"
  let ?vt = "vis_at ?n [2 + 2 * i, 2 + 2 * i + 1, ?n - 1]"
  have i: "i < length ?ths"
    using assms(4) by (simp add: length_all_themes)
  have th: "th = ?ths ! i"
    using assms(5) by (simp add: all_themes_eq)
  have "?n = length (trace_calls ?G pos ?ths)"
    using t by (metis length_map)
  then have n: "?n = 2 * length ?ths + 3"
    by (simp add: length_trace_calls)
  have nth: "Inr (fig_data fig ! k) = trace_calls ?G pos ?ths ! k" if "k < ?n" for k
    using that t by (metis nth_map)
  have h: "interactive_html (files_after (run_script repo_root fs)) = Some fig"
    by (rule html_of_valid_input [OF assms(1-3) f])
  have 1: "length (buttons fig) = Suc (card (theme_set edges))"
    using lb by (simp add: length_all_themes)
  have 2: "buttons fig ! Suc i = (th, ?vt)"
    using b i th by simp
  have 3: "length ?vt = ?n" by simp
  have 8: "?n = 2 + 2 * card (theme_set edges) + 1"
    using n by (simp add: length_all_themes)
  have 4: "\<forall>j < length ?vt. ?vt ! j \<longleftrightarrow> j = 2 + 2 * i \<or> j = 2 + 2 * i + 1 \<or> j = length ?vt - 1"
    by (auto simp add: nth_vis_at)
  have 5: "Inr (fig_data fig ! (2 + 2 * i))
         = make_edge_trace ?G pos (theme_filter th) (Some 2) (''_'' @ th @ ''_w2'')"
    using nth [of "2 + 2 * i"] i n nth_trace_calls(1) [OF i, of ?G pos] th by simp
  have 6: "Inr (fig_data fig ! (2 + 2 * i + 1))
         = make_edge_trace ?G pos (theme_filter th) (Some 3) (''_'' @ th @ ''_w3'')"
    using nth [of "2 + 2 * i + 1"] i n nth_trace_calls(2) [OF i, of ?G pos] th by simp
  have 7: "Inr (fig_data fig ! (length ?vt - 1)) = make_node_trace ?G pos"
    using nth [of "?n - 1"] n last_trace_calls [of ?G pos ?ths] by simp
  show ?thesis
    by (rule exI [of _ fig], rule exI [of _ pos], rule exI [of _ ?vt])
      (intro conjI h p 1 2 3 8 4 5 6 7)
qed

theorem theme_visibility_witness:
  "edges_csv example_files = Some example_rows
   \<and> load_edges example_rows = Inr example_edges
   \<and> example_edges \<noteq> []
   \<and> 1 < card (theme_set example_edges)
   \<and> ''freedom'' = sorted_list_of_set (theme_set example_edges) ! 1
   \<and> (\<exists>fig vt. interactive_html (files_after (run_script [''repo''] example_files)) = Some fig
        \<and> buttons fig ! 2 = (''freedom'', vt)
        \<and> length vt = 7 \<and> length (fig_data fig) = 7
        \<and> \<not> vt ! 0 \<and> \<not> vt ! 1 \<and> \<not> vt ! 2 \<and> \<not> vt ! 3 \<and> vt ! 4 \<and> vt ! 5 \<and> vt ! 6)"
proof -
  have a: "edges_csv example_files = Some example_rows"
    by (simp add: example_files_def)
  have b: "example_edges \<noteq> []"
    by (simp add: example_edges_def)
  have c: "card (theme_set example_edges) = 2"
    by (simp add: length_all_themes [symmetric] all_themes_example)
  have d: "(1 :: nat) < card (theme_set example_edges)"
    by (simp add: c)
  have e: "''freedom'' = sorted_list_of_set (theme_set example_edges) ! 1"
    by (simp add: all_themes_eq [symmetric] all_themes_example)
  from theme_visibility [OF a load_example_rows b d e, of "[''repo'']"]
  obtain fig vt where r:
    "interactive_html (files_after (run_script [''repo''] example_files)) = Some fig"
    "length (buttons fig) = Suc (card (theme_set example_edges))"
    "buttons fig ! Suc 1 = (''freedom'', vt)" "length vt = length (fig_data fig)"
    "length (fig_data fig) = 2 + 2 * card (theme_set example_edges) + 1"
    "\<forall>j < length vt. vt ! j \<longleftrightarrow> j = 2 + 2 * 1 \<or> j = 2 + 2 * 1 + 1 \<or> j = length vt - 1"
    by blast
  have n: "length (fig_data fig) = 7" using r(5) c by simp
  with r(4) have l: "length vt = 7" by simp
  with r(6) have "\<not> vt ! 0 \<and> \<not> vt ! 1 \<and> \<not> vt ! 2 \<and> \<not> vt ! 3 \<and> vt ! 4 \<and> vt ! 5 \<and> vt ! 6"
    by simp
  moreover have "buttons fig ! 2 = (''freedom'', vt)"
    using r(3) by (simp add: numeral_2_eq_2)
  ultimately show ?thesis
    using a b d e load_example_rows r(1) l n by blast
qed

text \<open>
  Claim C3: when the theme predicate and the weight of a call of \<open>make_edge_trace\<close>
  accept no edge of the graph, the call still returns a trace: the placeholder with
  one null point, marked not visible. The trace list holds the result of every call,
  so the placeholder is in it, at the position of the call.
\<close>

theorem zero_match_placeholder:
  "(filter (accepts ff wt) (edges_view G) = [] \<longrightarrow>
      make_edge_trace G pos ff wt suffix = Inr (placeholder_trace suffix))
   \<and> sc_x (placeholder_trace suffix) = [None]
   \<and> sc_y (placeholder_trace suffix) = [None]
   \<and> visible (placeholder_trace suffix) = Some False
   \<and> (\<exists>fig p. build_figure edges = Inr fig
        \<and> positions (build_graph edges) = Inr p
        \<and> map Inr (fig_data fig) = trace_calls (build_graph edges) p (all_themes edges))"
proof -
  have "\<exists>fig p. build_figure edges = Inr fig
        \<and> positions (build_graph edges) = Inr p
        \<and> map Inr (fig_data fig) = trace_calls (build_graph edges) p (all_themes edges)"
    using build_figure_result [of edges] by blast
  then show ?thesis
    by (simp add: make_edge_trace_no_accept placeholder_trace_def)
qed

theorem zero_match_placeholder_witness:
  "filter (accepts (\<lambda>u v d. True) (Some 2)) (edges_view (build_graph plain_edges)) = []
   \<and> (\<exists>fig p. build_figure plain_edges = Inr fig
        \<and> positions (build_graph plain_edges) = Inr p
        \<and> make_edge_trace (build_graph plain_edges) p (\<lambda>u v d. True) (Some 2) ''_all_w2''
            = Inr (placeholder_trace ''_all_w2'')
        \<and> fig_data fig ! 0 = placeholder_trace ''_all_w2''
        \<and> visible (fig_data fig ! 0) = Some False)"
proof -
  have e: "edges_view (build_graph plain_edges)
      = [(''A'', ''B'', \<lparr>weight = 1, themes = [], note_text = ''''\<rparr>)]"
    by code_simp
  have a: "filter (accepts (\<lambda>u v d. True) (Some 2)) (edges_view (build_graph plain_edges)) = []"
    by (simp add: e accepts_def)
  obtain fig p where f: "build_figure plain_edges = Inr fig"
    and p: "positions (build_graph plain_edges) = Inr p"
    and t: "map Inr (fig_data fig)
        = trace_calls (build_graph plain_edges) p (all_themes plain_edges)"
    using zero_match_placeholder [of "\<lambda>u v d. True" "Some 2" "build_graph plain_edges"
        Map.empty "''_all_w2''" plain_edges]
    by blast
  have m: "make_edge_trace (build_graph plain_edges) p (\<lambda>u v d. True) (Some 2) ''_all_w2''
      = Inr (placeholder_trace ''_all_w2'')"
    using zero_match_placeholder [of "\<lambda>u v d. True" "Some 2" "build_graph plain_edges"
        p "''_all_w2''" plain_edges] a
    by blast
  have "0 < length (fig_data fig)"
    using t by (metis length_map length_trace_calls add_gr_0 zero_less_numeral)
  then have "Inr (fig_data fig ! 0)
      = trace_calls (build_graph plain_edges) p (all_themes plain_edges) ! 0"
    using t by (metis nth_map)
  then have d: "fig_data fig ! 0 = placeholder_trace ''_all_w2''"
    using m by (simp add: trace_calls_def)
  have v: "visible (fig_data fig ! 0) = Some False"
    by (simp add: d placeholder_trace_def)
  show ?thesis
    using a f p m d v by blast
qed

section \<open>Edges of the built graph\<close>

lemma has_node_adj: "wf_graph G \<Longrightarrow> has_node G n \<longleftrightarrow> map_of (adj_dict G) n \<noteq> None"
  by (simp add: wf_graph_def has_node_def map_of_eq_None_iff) (metis list.set_map)

lemma nbr_data_add_node:
  assumes "wf_graph G"
  shows "nbr_data (add_node G n y) u v = nbr_data G u v"
proof (cases "has_node G n")
  case True
  then show ?thesis by (simp add: add_node_def nbr_data_def)
next
  case False
  then have "map_of (adj_dict G) n = None"
    using has_node_adj [OF assms] by simp
  with False show ?thesis
    by (simp add: add_node_def nbr_data_def AList.update_conv')
qed

lemma nbr_data_add_edge:
  assumes "wf_graph G" "has_node G s" "has_node G t"
  shows "nbr_data (add_edge G s t d) u v =
     (if (u = s \<and> v = t) \<or> (u = t \<and> v = s) then Some d else nbr_data G u v)"
proof -
  obtain ns nt where a: "map_of (adj_dict G) s = Some ns" "map_of (adj_dict G) t = Some nt"
    using assms has_node_adj by fastforce
  have "adj_dict (add_edge G s t d) = AList.map_entry t (AList.update s d)
        (AList.map_entry s (AList.update t d) (adj_dict G))"
    using assms(2,3) by (simp add: add_edge_def ensure_node_present Let_def)
  then show ?thesis
    using a by (auto simp add: nbr_data_def AList.map_of_map_entry AList.update_conv'
        split: option.splits)
qed

lemma nbr_data_build_step:
  assumes "wf_graph G"
  shows "nbr_data (build_step e G) u v =
     (if edge_pair e = {u, v} then Some (edge_attrs e) else nbr_data G u v)"
proof -
  obtain s sy t ty w ths nt where e: "e = (s, sy, t, ty, w, ths, nt)"
    by (cases e) blast
  let ?G2 = "add_node (add_node G s sy) t ty"
  have wf: "wf_graph ?G2"
    by (intro wf_add_node assms)
  have h: "has_node ?G2 s" "has_node ?G2 t"
    by (simp_all add: has_node_add_node)
  have n: "nbr_data ?G2 u v = nbr_data G u v"
    by (simp add: nbr_data_add_node assms wf_add_node)
  have p: "{s, t} = {u, v} \<longleftrightarrow> (u = s \<and> v = t) \<or> (u = t \<and> v = s)"
    by (auto simp add: doubleton_eq_iff)
  show ?thesis
    by (simp add: e build_step_def nbr_data_add_edge [OF wf h] n edge_pair_def edge_attrs_def p)
qed

lemma nbr_data_build_graph: "nbr_data (build_graph es) u v = pair_data es u v"
proof (induction es rule: rev_induct)
  case Nil
  show ?case
    by (simp add: build_graph_def empty_graph_def nbr_data_def pair_data_def)
next
  case (snoc e es)
  then show ?case
    by (simp add: build_graph_snoc nbr_data_build_step wf_build_graph pair_data_def)
qed

lemma joins_commute: "joins s t = joins t s"
  by (auto simp add: joins_def fun_eq_iff)

lemma joins_iff: "joins s t (u, v, d) \<longleftrightarrow> (u = s \<and> v = t) \<or> (u = t \<and> v = s)"
  by (auto simp add: joins_def doubleton_eq_iff)

lemma filter_key_distinct:
  "distinct (map fst nb) \<Longrightarrow> map_of nb k = Some d \<Longrightarrow> filter (\<lambda>p. fst p = k) nb = [(k, d)]"
proof (induction nb)
  case Nil
  then show ?case by simp
next
  case (Cons p nb)
  show ?case
  proof (cases "fst p = k")
    case True
    with Cons.prems have "p = (k, d)" by (cases p) simp
    moreover have "filter (\<lambda>p. fst p = k) nb = []"
    proof -
      have "k \<notin> fst ` set nb" using Cons.prems(1) True by auto
      then have "\<forall>q \<in> set nb. fst q \<noteq> k" by (metis imageI)
      then show ?thesis by (simp add: filter_empty_conv)
    qed
    ultimately show ?thesis by simp
  next
    case False
    with Cons show ?thesis by (cases p) simp
  qed
qed

lemma edges_from_seen_none:
  "s \<in> set seen \<Longrightarrow> s \<notin> fst ` set al \<Longrightarrow> filter (joins s t) (edges_from seen al) = []"
proof (induction seen al rule: edges_from.induct)
  case (1 seen)
  then show ?case by simp
next
  case (2 seen n nbrs rest)
  have "filter (joins s t) (edges_from (n # seen) rest) = []"
    using 2 by simp
  moreover have "filter (joins s t)
      (map (\<lambda>(nbr, dd). (n, nbr, dd)) (filter (\<lambda>(nbr, dd). nbr \<notin> set seen) nbrs)) = []"
    using 2(2,3) by (auto simp add: filter_empty_conv joins_iff)
  ultimately show ?case by simp
qed

lemma edges_from_node:
  assumes "distinct (map fst nbrs)" "map_of nbrs t = Some d" "t \<notin> set seen"
  shows "filter (joins s t)
      (map (\<lambda>(nbr, dd). (s, nbr, dd)) (filter (\<lambda>(nbr, dd). nbr \<notin> set seen) nbrs)) = [(s, t, d)]"
proof -
  have "filter (joins s t)
      (map (\<lambda>(nbr, dd). (s, nbr, dd)) (filter (\<lambda>(nbr, dd). nbr \<notin> set seen) nbrs))
    = map (\<lambda>(nbr, dd). (s, nbr, dd)) (filter (\<lambda>p. fst p = t) nbrs)"
    using assms(3)
    by (induction nbrs) (auto simp add: joins_iff)
  then show ?thesis
    by (simp add: filter_key_distinct [OF assms(1,2)])
qed

lemma edges_from_other:
  assumes "n \<noteq> s" "n \<noteq> t"
  shows "filter (joins s t)
      (map (\<lambda>(nbr, dd). (n, nbr, dd)) (filter (\<lambda>(nbr, dd). nbr \<notin> set seen) nbrs)) = []"
  using assms by (auto simp add: filter_empty_conv joins_iff)

lemma edges_from_single:
  assumes "distinct (map fst al)" "\<forall>p \<in> set al. distinct (map fst (snd p))"
    and "s \<notin> set seen" "t \<notin> set seen"
    and "map_of al s = Some ns" "map_of ns t = Some d"
    and "map_of al t = Some nt" "map_of nt s = Some d"
  shows "map (\<lambda>e. snd (snd e)) (filter (joins s t) (edges_from seen al)) = [d]"
  using assms
proof (induction al arbitrary: seen)
  case Nil
  then show ?case by simp
next
  case (Cons p al)
  obtain n nbrs where p: "p = (n, nbrs)" by (cases p) auto
  have dn: "distinct (map fst nbrs)" and nk: "n \<notin> fst ` set al"
    using Cons.prems(1,2) by (auto simp add: p)
  show ?case
  proof (cases "n = s")
    case True
    with Cons.prems(5) have "nbrs = ns" by (simp add: p)
    with dn Cons.prems(6) have "filter (joins s t)
        (map (\<lambda>(nbr, dd). (s, nbr, dd)) (filter (\<lambda>(nbr, dd). nbr \<notin> set seen) nbrs)) = [(s, t, d)]"
      using edges_from_node [OF _ _ Cons.prems(4)] by blast
    moreover have "filter (joins s t) (edges_from (s # seen) al) = []"
      using nk True by (intro edges_from_seen_none) simp_all
    ultimately show ?thesis
      by (simp add: p True)
  next
    case ns: False
    show ?thesis
    proof (cases "n = t")
      case True
      with Cons.prems(7) have "nbrs = nt" by (simp add: p)
      with dn Cons.prems(8) have "filter (joins t s)
          (map (\<lambda>(nbr, dd). (t, nbr, dd)) (filter (\<lambda>(nbr, dd). nbr \<notin> set seen) nbrs)) = [(t, s, d)]"
        using edges_from_node [OF _ _ Cons.prems(3)] by blast
      moreover have "filter (joins t s) (edges_from (t # seen) al) = []"
        using nk True by (intro edges_from_seen_none) simp_all
      ultimately show ?thesis
        by (simp add: p True joins_commute [of s t])
    next
      case False
      have "map (\<lambda>e. snd (snd e)) (filter (joins s t) (edges_from (n # seen) al)) = [d]"
        using Cons.prems ns False
        by (intro Cons.IH [of "n # seen"]) (auto simp add: p)
      then show ?thesis
        using edges_from_other [OF ns False] by (simp add: p)
    qed
  qed
qed

lemma edges_view_single:
  assumes "wf_graph G" "nbr_data G s t = Some d" "nbr_data G t s = Some d"
  shows "map (\<lambda>e. snd (snd e)) (filter (joins s t) (edges_view G)) = [d]"
proof -
  obtain ns where ns: "map_of (adj_dict G) s = Some ns" "map_of ns t = Some d"
    using assms(2) by (auto simp add: nbr_data_def split: option.splits)
  obtain nt where nt: "map_of (adj_dict G) t = Some nt" "map_of nt s = Some d"
    using assms(3) by (auto simp add: nbr_data_def split: option.splits)
  have d: "distinct (map fst (adj_dict G))" "\<forall>p \<in> set (adj_dict G). distinct (map fst (snd p))"
    using assms(1) by (simp_all add: wf_graph_def)
  show ?thesis
    unfolding edges_view_def
    by (rule edges_from_single [OF d _ _ ns nt]) simp_all
qed

lemma mentions_append: "mentions (xs @ ys) = mentions xs @ mentions ys"
  by (simp add: mentions_def)

lemma last_seen_year_append:
  "n \<notin> titles ys \<Longrightarrow> last_seen_year (xs @ ys) n = last_seen_year xs n"
  by (simp add: last_seen_year_def mentions_append titles_def map_add_def
      map_of_eq_None_iff [THEN iffD2])

lemma find_app:
  "find P (xs @ ys) = (case find P xs of None \<Rightarrow> find P ys | Some x \<Rightarrow> Some x)"
  by (induction xs) simp_all

lemma pair_data_append:
  "\<forall>e \<in> set ys. edge_pair e \<noteq> {u, v} \<Longrightarrow> pair_data (xs @ ys) u v = pair_data xs u v"
proof -
  assume "\<forall>e \<in> set ys. edge_pair e \<noteq> {u, v}"
  then have "find (\<lambda>e. edge_pair e = {u, v}) (rev ys) = None"
    by (simp add: find_None_iff)
  then show ?thesis
    by (simp add: pair_data_def find_app)
qed

lemma pair_data_snoc:
  "pair_data (xs @ [e]) u v = (if edge_pair e = {u, v} then Some (edge_attrs e) else pair_data xs u v)"
  by (simp add: pair_data_def)

text \<open>
  Claim C7, as amended: when two records have the same source and target titles and no
  record after the later one has this pair of titles, in either direction, the built
  graph has a single edge for the pair, whose weight, themes and note are those of the
  later record, with nothing kept from the earlier one. The year of an endpoint is the
  later record's year for it when no record after the later one names that title.
\<close>

theorem duplicate_pair_last_record_wins:
  assumes "edges = es1 @ [(s, sy1, t, ty1, w1, ths1, nt1)] @ es2
      @ [(s, sy2, t, ty2, w2, ths2, nt2)] @ es3"
    and "\<forall>e \<in> set es3. edge_pair e \<noteq> {s, t}"
  shows "map (\<lambda>e. snd (snd e)) (filter (joins s t) (edges_view (build_graph edges)))
       = [\<lparr>weight = w2, themes = ths2, note_text = nt2\<rparr>]
     \<and> (t \<notin> titles es3 \<longrightarrow> node_year (build_graph edges) t = Inr ty2)
     \<and> (s \<notin> titles es3 \<and> s \<noteq> t \<longrightarrow> node_year (build_graph edges) s = Inr sy2)"
proof -
  let ?r2 = "(s, sy2, t, ty2, w2, ths2, nt2)"
  let ?d = "\<lparr>weight = w2, themes = ths2, note_text = nt2\<rparr>"
  let ?pre = "es1 @ [(s, sy1, t, ty1, w1, ths1, nt1)] @ es2"
  have e: "edges = (?pre @ [?r2]) @ es3"
    by (simp add: assms(1))
  have p: "edge_pair ?r2 = {s, t}" "edge_attrs ?r2 = ?d"
    by (simp_all add: edge_pair_def edge_attrs_def)
  have st: "pair_data edges s t = Some ?d"
    unfolding e using assms(2) p by (simp only: pair_data_append pair_data_snoc) simp
  have "\<forall>e \<in> set es3. edge_pair e \<noteq> {t, s}"
    using assms(2) by (simp add: insert_commute)
  moreover have "edge_pair ?r2 = {t, s}"
    by (simp add: edge_pair_def insert_commute)
  ultimately have ts: "pair_data edges t s = Some ?d"
    unfolding e using p(2) by (simp only: pair_data_append pair_data_snoc) simp
  have 1: "map (\<lambda>e. snd (snd e)) (filter (joins s t) (edges_view (build_graph edges))) = [?d]"
    by (rule edges_view_single) (simp_all add: wf_build_graph nbr_data_build_graph st ts)
  have y: "last_seen_year (?pre @ [?r2]) n
      = (if n = t then Some ty2 else if n = s then Some sy2 else last_seen_year ?pre n)" for n
    by (rule last_seen_year_snoc)
  have 2: "node_year (build_graph edges) t = Inr ty2" if "t \<notin> titles es3"
    unfolding e by (simp only: node_year_build_graph last_seen_year_append [OF that] y) simp
  have 3: "node_year (build_graph edges) s = Inr sy2" if "s \<notin> titles es3" "s \<noteq> t"
    unfolding e using that(2)
    by (simp only: node_year_build_graph last_seen_year_append [OF that(1)] y) simp
  show ?thesis
    using 1 2 3 by blast
qed

theorem duplicate_pair_last_record_wins_witness:
  "edge_pair (''C'', 1850, ''D'', 1900, 1, [], '''') \<noteq> {''A'', ''B''}
   \<and> ''A'' \<notin> titles [(''C'', 1850, ''D'', 1900, 1, [], '''')]
   \<and> ''B'' \<notin> titles [(''C'', 1850, ''D'', 1900, 1, [], '''')]
   \<and> map (\<lambda>e. snd (snd e)) (filter (joins ''A'' ''B'') (edges_view (build_graph
        [(''A'', 1800, ''B'', 1810, 2, [''freedom''], ''first''),
         (''A'', 1801, ''B'', 1811, 3, [''abolition''], ''second''),
         (''C'', 1850, ''D'', 1900, 1, [], '''')])))
       = [\<lparr>weight = 3, themes = [''abolition''], note_text = ''second''\<rparr>]
   \<and> node_year (build_graph
        [(''A'', 1800, ''B'', 1810, 2, [''freedom''], ''first''),
         (''A'', 1801, ''B'', 1811, 3, [''abolition''], ''second''),
         (''C'', 1850, ''D'', 1900, 1, [], '''')]) ''B'' = Inr 1811
   \<and> node_year (build_graph
        [(''A'', 1800, ''B'', 1810, 2, [''freedom''], ''first''),
         (''A'', 1801, ''B'', 1811, 3, [''abolition''], ''second''),
         (''C'', 1850, ''D'', 1900, 1, [], '''')]) ''A'' = Inr 1801"
proof -
  let ?es3 = "[(''C'', 1850, ''D'', 1900, 1, [], '''')] :: edge list"
  have a: "\<forall>e \<in> set ?es3. edge_pair e \<noteq> {''A'', ''B''}"
    by (simp add: edge_pair_def doubleton_eq_iff)
  have b: "''A'' \<notin> titles ?es3" "''B'' \<notin> titles ?es3"
    by (simp_all add: titles_def mentions_def)
  have c: "[(''A'', 1800, ''B'', 1810, 2, [''freedom''], ''first''),
         (''A'', 1801, ''B'', 1811, 3, [''abolition''], ''second''),
         (''C'', 1850, ''D'', 1900, 1, [], '''')]
      = [] @ [(''A'', 1800, ''B'', 1810, 2, [''freedom''], ''first'')] @ []
        @ [(''A'', 1801, ''B'', 1811, 3, [''abolition''], ''second'')] @ ?es3"
    by simp
  have d: "edge_pair (''C'', 1850, ''D'', 1900, 1, [], '''') \<noteq> {''A'', ''B''}"
    using a by simp
  show ?thesis
    using duplicate_pair_last_record_wins [OF c a] b d by simp
qed

text \<open>
  Claim C7 as it is written gives the endpoint the later record's year in every edge
  sequence with such two records; a record after them that names the endpoint changes
  the year. Here node B ends with the year 1700 of the third record, not with 1810.
\<close>

theorem duplicate_pair_year_counterexample:
  "node_year (build_graph
      [(''A'', 1800, ''B'', 1810, 2, [''freedom''], ''first''),
       (''A'', 1800, ''B'', 1810, 3, [''abolition''], ''second''),
       (''B'', 1700, ''C'', 1850, 1, [], '''')]) ''B'' = Inr 1700
   \<and> node_year (build_graph
      [(''A'', 1800, ''B'', 1810, 2, [''freedom''], ''first''),
       (''A'', 1800, ''B'', 1810, 3, [''abolition''], ''second''),
       (''B'', 1700, ''C'', 1850, 1, [], '''')]) ''B'' \<noteq> Inr 1810"
  by code_simp

section \<open>Hover text\<close>

lemma make_edge_trace_hover:
  assumes "wf_graph G" "set (nodes G) \<subseteq> dom pos" "filter (accepts ff wt) (edges_view G) \<noteq> []"
  shows "\<exists>tr. make_edge_trace G pos ff wt suffix = Inr tr
     \<and> sc_text tr = Str (join ''<br>''
           (map (\<lambda>(u, v, d). hover_block u v d) (filter (accepts ff wt) (edges_view G))))"
proof -
  let ?acc = "filter (accepts ff wt) (edges_view G)"
  have "pos u \<noteq> None \<and> pos v \<noteq> None" if "(u, v, d) \<in> set (edges_view G)" for u v d
    using edges_view_nodes [OF assms(1) that] assms(2) by blast
  then have l: "edge_loop pos ff wt (edges_view G) ([], [], []) =
     Inr ([] @ concat (map (\<lambda>(u, v, d). [Some (fst (the (pos u))), Some (fst (the (pos v))), None]) ?acc),
          [] @ concat (map (\<lambda>(u, v, d). [Some (snd (the (pos u))), Some (snd (the (pos v))), None]) ?acc),
          [] @ map (\<lambda>(u, v, d). hover_block u v d) ?acc)"
    by (intro edge_loop_result) blast
  define X where "X = concat (map (\<lambda>(u, v, d).
      [Some (fst (the (pos u))), Some (fst (the (pos v))), None]) ?acc)"
  define Y where "Y = concat (map (\<lambda>(u, v, d).
      [Some (snd (the (pos u))), Some (snd (the (pos v))), None]) ?acc)"
  define T where "T = map (\<lambda>(u, v, d). hover_block u v d) ?acc"
  have l': "edge_loop pos ff wt (edges_view G) ([], [], []) = Inr (X, Y, T)"
    using l by (simp add: X_def Y_def T_def)
  have "X \<noteq> []"
    unfolding X_def using assms(3) by (cases ?acc) auto
  then have "\<exists>tr. make_edge_trace G pos ff wt suffix = Inr tr \<and> sc_text tr = Str (join ''<br>'' T)"
    by (simp add: make_edge_trace_def l')
  then show ?thesis
    by (simp add: T_def)
qed

text \<open>
  In the two-row scenario of the specification the weight-3 aggregate trace has the
  hover text of the edge from B to C, with both themes and the weight 3.
\<close>

lemma scenario_hover_text:
  "map_sum id (\<lambda>fig. sc_text (fig_data fig ! 1)) (build_figure example_edges)
     = Inr (Str (''B '' @ arrow @ '' C<br>Themes: freedom, abolition<br>Influence: 3 / 3<br>x''))"
  by code_simp

text \<open>
  Claim C9 says that the label of a hover block reads source, arrow, target. The graph
  is undirected and reports an edge from the endpoint that was inserted first, so for
  a record whose target was inserted before its source the label is reversed. With the
  records A to B and then C to B, the block of the second record reads "B, arrow, C".
\<close>

theorem hover_label_reversed:
  "map_sum id (\<lambda>fig. sc_text (fig_data fig ! 0))
       (build_figure [(''A'', 1800, ''B'', 1850, 2, [], ''''), (''C'', 1820, ''B'', 1850, 2, [], '''')])
     = Inr (Str (''A '' @ arrow @ '' B<br>Themes: '' @ em_dash @ ''<br>Influence: 2 / 3<br>''
                 @ ''<br>''
                 @ ''B '' @ arrow @ '' C<br>Themes: '' @ em_dash @ ''<br>Influence: 2 / 3<br>''))"
  by code_simp

end
